theory Spec2Isabelle
  imports
    Main
    "HOL-Library.AList"
    "HOL-Library.Char_ord"
    "HOL-Library.List_Lexorder"
    "HOL-Library.Sublist"
    "HOL-Library.Multiset"
begin

section \<open>The Excel data consolidator (excel\_consolidator.py)\<close>

text \<open>
  The engine of \<^verbatim>\<open>src/excel_consolidator.py\<close>, class \<^verbatim>\<open>ExcelConsolidator\<close>, as
  functions on an explicit engine state.

  Strings are \<open>string\<close>: a character is a code point below 256, and every string function
  below (\<open>lower\<close>, \<open>strip\<close>, the order used by \<open>sorted\<close>) is Python's, restricted to
  such strings. A path is the list of its components. A Python \<open>dict\<close> is an association
  list in insertion order, written with \<open>AList.update\<close> (an existing key keeps its place and
  takes the new value, a new key goes to the end) and read with \<open>map_of\<close>. The set
  \<open>all_keys\<close> is a HOL set. What the libraries do is a parameter: \<open>walk\<close> is what
  \<^verbatim>\<open>os.walk\<close> yields, \<open>pd_read_excel\<close> is what \<^verbatim>\<open>pd.read_excel\<close> returns or raises for a
  path, \<open>save_excel\<close> is whether the export succeeds. Logging is left out.
\<close>

subsection \<open>Data\<close>

datatype error = ValueError | KeyError | ReadError | SaveError

type_synonym path = "string list"

text \<open>A cell of the data frame: \<open>None\<close> is pandas' NaN (an absent or empty cell).\<close>

type_synonym cell = "string option"

type_synonym row = "cell \<times> cell"

type_synonym dict = "(string \<times> string) list"

type_synonym table = "string list list"

record engine =
  data_path :: path
  all_keys :: "string set"
  file_data :: "(string \<times> dict) list"
  file_order :: "(string \<times> string list) list"

text \<open>\<^verbatim>\<open>__init__\<close>, after \<^verbatim>\<open>_validate_path\<close> has accepted the directory.\<close>

definition init :: "path \<Rightarrow> engine" where
  "init dp = \<lparr>data_path = dp, all_keys = {}, file_data = [], file_order = []\<rparr>"

subsection \<open>Strings and paths\<close>

definition lower_char :: "char \<Rightarrow> char" where
  "lower_char c =
     (let n = (of_char c :: nat)
      in if (65 \<le> n \<and> n \<le> 90) \<or> (192 \<le> n \<and> n \<le> 222 \<and> n \<noteq> 215)
         then char_of (n + 32) else c)"

definition lower :: "string \<Rightarrow> string" where
  "lower s = map lower_char s"

definition endswith :: "string \<Rightarrow> string \<Rightarrow> bool" where
  "endswith s suf =
     (length suf \<le> length s \<and> drop (length s - length suf) s = suf)"

definition startswith :: "string \<Rightarrow> string \<Rightarrow> bool" where
  "startswith s pre = (take (length pre) s = pre)"

text \<open>The code points below 256 that \<^verbatim>\<open>str.strip()\<close> removes.\<close>

definition isspace :: "char \<Rightarrow> bool" where
  "isspace c =
     (let n = (of_char c :: nat)
      in (9 \<le> n \<and> n \<le> 13) \<or> (28 \<le> n \<and> n \<le> 32) \<or> n = 133 \<or> n = 160)"

definition strip :: "string \<Rightarrow> string" where
  "strip s = rev (dropWhile isspace (rev (dropWhile isspace s)))"

fun join_path :: "string list \<Rightarrow> string" where
  "join_path [] = ''''"
| "join_path [c] = c"
| "join_path (c # cs) = c @ ''/'' @ join_path cs"

text \<open>\<^verbatim>\<open>str(Path)\<close>: the components joined; the empty path prints as a dot.\<close>

definition str_path :: "path \<Rightarrow> string" where
  "str_path p = (if p = [] then ''.'' else join_path p)"

text \<open>\<^verbatim>\<open>Path.relative_to\<close>: raises \<^verbatim>\<open>ValueError\<close> unless the base is a prefix.\<close>

definition relative_to :: "path \<Rightarrow> path \<Rightarrow> error + path" where
  "relative_to p base =
     (if take (length base) p = base then Inr (drop (length base) p) else Inl ValueError)"

subsection \<open>\<^verbatim>\<open>_scan_files\<close>\<close>

text \<open>One step of \<^verbatim>\<open>os.walk\<close>: a directory and the names of the files in it.\<close>

type_synonym walk = "(path \<times> string list) list"

definition extensions :: "string list" where
  "extensions = [''.xlsx'', ''.xls'', ''.xlsm'']"

definition is_excel :: "string \<Rightarrow> bool" where
  "is_excel file = list_ex (endswith (lower file)) extensions"

fun scan_dir :: "path \<Rightarrow> string list \<Rightarrow> path list \<Rightarrow> path list" where
  "scan_dir root [] excel_files = excel_files"
| "scan_dir root (file # files) excel_files =
     (if is_excel file
      then (let full_path = root @ [file]
            in if \<not> startswith file ''~$''
               then scan_dir root files (excel_files @ [full_path])
               else scan_dir root files excel_files)
      else scan_dir root files excel_files)"

fun scan_walk :: "walk \<Rightarrow> path list \<Rightarrow> path list" where
  "scan_walk [] excel_files = excel_files"
| "scan_walk ((root, files) # w) excel_files = scan_walk w (scan_dir root files excel_files)"

definition scan_files :: "walk \<Rightarrow> path list" where
  "scan_files w = scan_walk w []"

subsection \<open>\<^verbatim>\<open>_get_relative_path\<close>\<close>

definition get_relative_path :: "engine \<Rightarrow> path \<Rightarrow> string" where
  "get_relative_path s file_path =
     (case relative_to file_path (data_path s) of
        Inr r \<Rightarrow> str_path r
      | Inl e \<Rightarrow> str_path file_path)"

subsection \<open>\<^verbatim>\<open>_read_excel\<close>\<close>

definition dict_get :: "dict \<Rightarrow> string \<Rightarrow> string \<Rightarrow> string" where
  "dict_get d k dflt = (case map_of d k of Some v \<Rightarrow> v | None \<Rightarrow> dflt)"

definition row_key :: "row \<Rightarrow> string" where
  "row_key r = (case fst r of Some c \<Rightarrow> strip c | None \<Rightarrow> '''')"

definition row_value :: "row \<Rightarrow> string" where
  "row_value r = (case snd r of Some c \<Rightarrow> c | None \<Rightarrow> '''')"

text \<open>The body of the loop over the rows, on the three things it updates.\<close>

definition row_step :: "row \<Rightarrow> dict \<times> string list \<times> string set \<Rightarrow> dict \<times> string list \<times> string set" where
  "row_step r st =
     (case st of (data_dict, key_order, keys) \<Rightarrow>
        (let key = row_key r; value = row_value r
         in if key \<noteq> ''''
            then (if map_of data_dict key = None
                  then (AList.update key value data_dict, key_order @ [key], insert key keys)
                  else st)
            else st))"

fun read_rows :: "row list \<Rightarrow> dict \<times> string list \<times> string set \<Rightarrow> dict \<times> string list \<times> string set" where
  "read_rows [] st = st"
| "read_rows (r # rs) st = read_rows rs (row_step r st)"

text \<open>
  The \<^verbatim>\<open>try\<close> block: \<^verbatim>\<open>pd.read_excel\<close> either raises, and the handler returns the empty
  dictionary with the engine untouched, or gives the data frame of the first two columns
  (as strings or NaN), and the loop runs over its rows; nothing in the loop raises.
\<close>

definition read_excel :: "(path \<Rightarrow> error + row list) \<Rightarrow> engine \<Rightarrow> path \<Rightarrow> dict \<times> engine" where
  "read_excel pd_read_excel s file_path =
     (let relative_path = get_relative_path s file_path
      in case pd_read_excel file_path of
           Inl e \<Rightarrow> ([], s)
         | Inr df \<Rightarrow>
             (case read_rows df ([], [], all_keys s) of (data_dict, key_order, keys) \<Rightarrow>
                (data_dict,
                 s\<lparr>all_keys := keys,
                   file_order := AList.update relative_path key_order (file_order s)\<rparr>)))"

subsection \<open>\<^verbatim>\<open>consolidate\<close>\<close>

fun read_all :: "(path \<Rightarrow> error + row list) \<Rightarrow> path list \<Rightarrow> engine \<Rightarrow> engine" where
  "read_all pd_read_excel [] s = s"
| "read_all pd_read_excel (file # files) s =
     (let relative_path = get_relative_path s file
      in case read_excel pd_read_excel s file of (data, s') \<Rightarrow>
           read_all pd_read_excel files
             (s'\<lparr>file_data := AList.update relative_path data (file_data s')\<rparr>))"

text \<open>The dictionary comprehension over the file's own keys.\<close>

fun comprehend :: "dict \<Rightarrow> string list \<Rightarrow> dict \<Rightarrow> dict" where
  "comprehend data [] value_map = value_map"
| "comprehend data (k # ks) value_map =
     comprehend data ks (AList.update k (dict_get data k '''') value_map)"

text \<open>The loop that adds the keys the file does not have.\<close>

fun supplement :: "dict \<Rightarrow> string list \<Rightarrow> dict \<Rightarrow> dict" where
  "supplement data [] value_map = value_map"
| "supplement data (key # ks) value_map =
     (if map_of value_map key = None
      then supplement data ks (AList.update key (dict_get data key '''') value_map)
      else supplement data ks value_map)"

text \<open>\<^verbatim>\<open>value_map[key]\<close> for each key in turn: a missing key raises.\<close>

fun index_all :: "dict \<Rightarrow> string list \<Rightarrow> error + string list" where
  "index_all value_map [] = Inr []"
| "index_all value_map (key # ks) =
     (case map_of value_map key of
        None \<Rightarrow> Inl KeyError
      | Some v \<Rightarrow> (case index_all value_map ks of Inl e \<Rightarrow> Inl e | Inr vs \<Rightarrow> Inr (v # vs)))"

text \<open>\<^verbatim>\<open>self.file_order.get(relative_path, [])\<close>\<close>

definition key_list :: "engine \<Rightarrow> string \<Rightarrow> string list" where
  "key_list s relative_path =
     (case map_of (file_order s) relative_path of Some ks \<Rightarrow> ks | None \<Rightarrow> [])"

definition build_row :: "engine \<Rightarrow> string list \<Rightarrow> string \<times> dict \<Rightarrow> error + string list" where
  "build_row s sorted_keys item =
     (case item of (relative_path, data) \<Rightarrow>
        (let file_keys = key_list s relative_path;
             value_map = comprehend data file_keys [];
             value_map = supplement data sorted_keys value_map
         in case index_all value_map sorted_keys of
              Inl e \<Rightarrow> Inl e
            | Inr vs \<Rightarrow> Inr (relative_path # vs)))"

fun build_rows :: "engine \<Rightarrow> string list \<Rightarrow> (string \<times> dict) list \<Rightarrow> table \<Rightarrow> error + table" where
  "build_rows s sorted_keys [] data_rows = Inr data_rows"
| "build_rows s sorted_keys (item # items) data_rows =
     (case build_row s sorted_keys item of
        Inl e \<Rightarrow> Inl e
      | Inr row \<Rightarrow> build_rows s sorted_keys items (data_rows @ [row]))"

text \<open>
  The result of a call: the boolean returned, the table given to \<^verbatim>\<open>_save_excel\<close>
  (the data frame made of \<^verbatim>\<open>data_rows\<close>: header and rows; \<open>None\<close> when
  \<^verbatim>\<open>_save_excel\<close> was not called) and the engine afterwards. An exception raised while
  the rows are built or by \<^verbatim>\<open>_save_excel\<close> is caught by the handler of
  \<^verbatim>\<open>consolidate\<close>, which returns false.
\<close>

record outcome =
  success :: bool
  handed :: "table option"
  final :: engine

definition consolidate ::
  "walk \<Rightarrow> (path \<Rightarrow> error + row list) \<Rightarrow> (table \<Rightarrow> error + unit) \<Rightarrow> engine \<Rightarrow> outcome" where
  "consolidate w pd_read_excel save_excel s =
     (let excel_files = scan_files w
      in if excel_files = [] then \<lparr>success = False, handed = None, final = s\<rparr>
         else
           (let s = read_all pd_read_excel excel_files s
            in if all_keys s = {} then \<lparr>success = False, handed = None, final = s\<rparr>
               else
                 (let sorted_keys = sorted_list_of_set (all_keys s);
                      header_row = ''Source File'' # sorted_keys
                  in case build_rows s sorted_keys (file_data s) [header_row] of
                       Inl e \<Rightarrow> \<lparr>success = False, handed = None, final = s\<rparr>
                     | Inr data_rows \<Rightarrow>
                         (case save_excel data_rows of
                            Inl e \<Rightarrow> \<lparr>success = False, handed = Some data_rows, final = s\<rparr>
                          | Inr u \<Rightarrow> \<lparr>success = True, handed = Some data_rows, final = s\<rparr>))))"

section \<open>Notions used in the statements\<close>

subsection \<open>One sheet\<close>

text \<open>The rows that pass the test on the key, and their key and value.\<close>

definition valid_rows :: "row list \<Rightarrow> row list" where
  "valid_rows df = filter (\<lambda>r. row_key r \<noteq> '''') df"

definition pairs :: "row list \<Rightarrow> (string \<times> string) list" where
  "pairs df = map (\<lambda>r. (row_key r, row_value r)) (valid_rows df)"

text \<open>
  The mapping \<^verbatim>\<open>_read_excel\<close> returns for a file. It does not depend on the engine
  (\<open>read_excel_fst\<close> below), so it is taken on a fresh one.
\<close>

definition extracted :: "(path \<Rightarrow> error + row list) \<Rightarrow> path \<Rightarrow> dict" where
  "extracted rd p = fst (read_excel rd (init []) p)"

text \<open>The key universe of a list of files: every key of every file's mapping.\<close>

definition universe :: "(path \<Rightarrow> error + row list) \<Rightarrow> path list \<Rightarrow> string set" where
  "universe rd files = (\<Union>p\<in>set files. fst ` set (extracted rd p))"

subsection \<open>Rows and the table\<close>

text \<open>The cell of the table for a file's mapping and a key.\<close>

definition cell_of :: "dict \<Rightarrow> string \<Rightarrow> string" where
  "cell_of data k = (case map_of data k of Some v \<Rightarrow> v | None \<Rightarrow> '''')"

definition cells :: "string list \<Rightarrow> dict \<Rightarrow> string list" where
  "cells ks data = map (\<lambda>k. case map_of data k of Some v \<Rightarrow> v | None \<Rightarrow> '''') ks"

definition table_row :: "string list \<Rightarrow> string \<times> dict \<Rightarrow> string list" where
  "table_row ks item = fst item # cells ks (snd item)"

text \<open>The table of an engine that has read its files: header row, then a row per entry.\<close>

definition assembled :: "engine \<Rightarrow> table" where
  "assembled s =
     (''Source File'' # sorted_list_of_set (all_keys s))
       # map (table_row (sorted_list_of_set (all_keys s))) (file_data s)"

text \<open>
  The invariant of \<^verbatim>\<open>value_map\<close> while a row is built: what it holds for a key is what
  \<^verbatim>\<open>data.get(key, "")\<close> gives.
\<close>

definition agrees :: "dict \<Rightarrow> dict \<Rightarrow> bool" where
  "agrees data vm = (\<forall>k v. map_of vm k = Some v \<longrightarrow> v = dict_get data k '''')"

subsection \<open>Names and paths\<close>

text \<open>The relative path of a file, for a root directory.\<close>

definition rel :: "path \<Rightarrow> path \<Rightarrow> string" where
  "rel dp p = get_relative_path (init dp) p"

text \<open>
  A name ends with an extension without regard to case: some suffix of the name is the
  extension once both are put in lower case.
\<close>

definition ends_with_ci :: "string \<Rightarrow> string \<Rightarrow> bool" where
  "ends_with_ci name ext = (\<exists>suf. suffix suf name \<and> lower suf = lower ext)"

text \<open>The names the discoverer is to keep.\<close>

definition recognised :: "string \<Rightarrow> bool" where
  "recognised name =
     ((ends_with_ci name ''.xlsx'' \<or> ends_with_ci name ''.xls'' \<or> ends_with_ci name ''.xlsm'')
      \<and> \<not> prefix ''~$'' name)"

definition slash_free :: "string \<Rightarrow> bool" where
  "slash_free c = (CHR ''/'' \<notin> set c)"

text \<open>
  What \<^verbatim>\<open>os.walk\<close> yields on a directory tree: each directory once, every directory
  at or below the root, the names within a directory pairwise different, and no name
  containing the separator.
\<close>

definition walk_of_tree :: "path \<Rightarrow> walk \<Rightarrow> bool" where
  "walk_of_tree dp w =
     (distinct (map fst w)
      \<and> (\<forall>(root, files)\<in>set w.
            prefix dp root \<and> distinct files \<and> (\<forall>c\<in>set root \<union> set files. slash_free c)))"

subsection \<open>A directory for the examples\<close>

text \<open>
  A root \<open>d\<close> with a sheet that repeats a key (once with blanks around it), has a row
  without key and a key without value; a lock file; a file that cannot be read; a file
  that is no spreadsheet; and a subdirectory with a second sheet whose extension is in
  upper case.
\<close>

definition ex_walk :: walk where
  "ex_walk = [([''d''], [''a.xlsx'', ''~$a.xlsx'', ''bad.xlsm'', ''notes.txt'']), ([''d'', ''sub''], [''b.XLS''])]"

text \<open>The same tree, walked in another order.\<close>

definition ex_walk_rev :: walk where
  "ex_walk_rev = [([''d'', ''sub''], [''b.XLS'']), ([''d''], [''notes.txt'', ''bad.xlsm'', ''a.xlsx''])]"

definition ex_read :: "path \<Rightarrow> error + row list" where
  "ex_read p =
     (if p = [''d'', ''a.xlsx'']
      then Inr [(Some '' X '', Some ''1''), (Some ''X'', Some ''2''), (None, Some ''z''), (Some ''b'', None)]
      else if p = [''d'', ''sub'', ''b.XLS'']
      then Inr [(Some ''C'', Some ''3''), (Some ''b'', Some ''4'')]
      else Inl ReadError)"

text \<open>The table of the example.\<close>

definition ex_table :: table where
  "ex_table =
     [[''Source File'', ''C'', ''X'', ''b''],
      [''a.xlsx'', '''', ''1'', ''''],
      [''bad.xlsm'', '''', '''', ''''],
      [''sub/b.XLS'', ''3'', '''', ''4'']]"

text \<open>A directory with one sheet, two rows with the key \<open>X\<close>.\<close>

definition dup_walk :: walk where
  "dup_walk = [([''d''], [''c.xlsx''])]"

definition dup_read :: "path \<Rightarrow> error + row list" where
  "dup_read p = Inr [(Some ''X'', Some ''1''), (Some ''X'', Some ''2'')]"

section \<open>Properties\<close>

subsection \<open>The discoverer\<close>

lemma endswith_suffix: "endswith s suf \<longleftrightarrow> suffix suf s"
proof
  assume "endswith s suf"
  then have "drop (length s - length suf) s = suf" by (simp add: endswith_def)
  then show "suffix suf s" by (metis suffix_drop)
next
  assume "suffix suf s"
  then obtain zs where "s = zs @ suf" by (auto simp: suffix_def)
  then show "endswith s suf" by (simp add: endswith_def)
qed

lemma startswith_prefix: "startswith s pre \<longleftrightarrow> prefix pre s"
proof
  assume "startswith s pre"
  then have "take (length pre) s = pre" by (simp add: startswith_def)
  then show "prefix pre s" by (metis take_is_prefix)
next
  assume "prefix pre s"
  then obtain zs where "s = pre @ zs" by (auto simp: prefix_def)
  then show "startswith s pre" by (simp add: startswith_def)
qed

lemma suffix_map_iff: "suffix ext (map f name) \<longleftrightarrow> (\<exists>suf. suffix suf name \<and> map f suf = ext)"
proof
  assume "suffix ext (map f name)"
  then obtain zs where z: "map f name = zs @ ext" by (auto simp: suffix_def)
  have "map f (drop (length zs) name) = drop (length zs) (map f name)" by (simp add: drop_map)
  also have "\<dots> = ext" by (simp add: z)
  finally have "map f (drop (length zs) name) = ext" .
  moreover have "suffix (drop (length zs) name) name" by (rule suffix_drop)
  ultimately show "\<exists>suf. suffix suf name \<and> map f suf = ext" by blast
next
  assume "\<exists>suf. suffix suf name \<and> map f suf = ext"
  then obtain suf zs where "name = zs @ suf" "map f suf = ext" by (auto simp: suffix_def)
  then have "map f name = map f zs @ ext" by simp
  then show "suffix ext (map f name)" by (auto simp: suffix_def)
qed

lemma lower_extensions:
  "lower ''.xlsx'' = ''.xlsx''" "lower ''.xls'' = ''.xls''" "lower ''.xlsm'' = ''.xlsm''"
  by code_simp+

lemma endswith_lower_ci: "lower ext = ext \<Longrightarrow> endswith (lower name) ext \<longleftrightarrow> ends_with_ci name ext"
  by (simp add: endswith_suffix ends_with_ci_def lower_def suffix_map_iff)

lemma is_excel_recognised:
  "is_excel file \<and> \<not> startswith file ''~$'' \<longleftrightarrow> recognised file"
  by (simp add: is_excel_def extensions_def recognised_def startswith_prefix
      endswith_lower_ci lower_extensions)

lemma scan_dir_eq:
  "scan_dir root files acc = acc @ map (\<lambda>f. root @ [f]) (filter recognised files)"
proof (induction files arbitrary: acc)
  case Nil
  show ?case by simp
next
  case (Cons f files)
  show ?case
  proof (cases "recognised f")
    case True
    then have "is_excel f" "\<not> startswith f ''~$''" using is_excel_recognised [of f] by auto
    then show ?thesis using True Cons.IH by simp
  next
    case False
    then have "\<not> (is_excel f \<and> \<not> startswith f ''~$'')" using is_excel_recognised [of f] by simp
    then show ?thesis using False Cons.IH by auto
  qed
qed

lemma scan_walk_eq:
  "scan_walk w acc =
     acc @ concat (map (\<lambda>(root, files). map (\<lambda>f. root @ [f]) (filter recognised files)) w)"
  by (induction w arbitrary: acc) (auto simp: scan_dir_eq)

lemma scan_files_concat:
  "scan_files w = concat (map (\<lambda>(root, files). map (\<lambda>f. root @ [f]) (filter recognised files)) w)"
  by (simp add: scan_files_def scan_walk_eq)

lemma scan_files_mem:
  "p \<in> set (scan_files w) \<Longrightarrow> \<exists>root files f. (root, files) \<in> set w \<and> f \<in> set files \<and> p = root @ [f]"
  unfolding scan_files_concat by auto

lemma scan_files_distinct:
  "distinct (map fst w) \<Longrightarrow> \<forall>(root, files)\<in>set w. distinct files \<Longrightarrow> distinct (scan_files w)"
proof (induction w)
  case Nil
  show ?case by (simp add: scan_files_concat)
next
  case (Cons x w)
  obtain root files where x: "x = (root, files)" by (cases x) auto
  have d: "distinct (scan_files w)" using Cons by simp
  have "distinct (filter recognised files)" using Cons.prems(2) x by simp
  then have h: "distinct (map (\<lambda>f. root @ [f]) (filter recognised files))"
    by (simp add: distinct_map inj_on_def)
  have dis: "set (map (\<lambda>f. root @ [f]) (filter recognised files)) \<inter> set (scan_files w) = {}"
  proof (rule ccontr)
    assume "set (map (\<lambda>f. root @ [f]) (filter recognised files)) \<inter> set (scan_files w) \<noteq> {}"
    then obtain p where p1: "p \<in> set (map (\<lambda>f. root @ [f]) (filter recognised files))"
      and p2: "p \<in> set (scan_files w)" by blast
    from p1 obtain f where "p = root @ [f]" by auto
    moreover from scan_files_mem [OF p2] obtain root' files' f'
      where "(root', files') \<in> set w" "p = root' @ [f']" by blast
    ultimately have "root \<in> fst ` set w" by force
    then show False using Cons.prems(1) x by simp
  qed
  have "scan_files (x # w) = map (\<lambda>f. root @ [f]) (filter recognised files) @ scan_files w"
    by (simp add: scan_files_concat x)
  then show ?case using d h dis by simp
qed

lemma ex_scan: "scan_files ex_walk = [[''d'', ''a.xlsx''], [''d'', ''bad.xlsm''], [''d'', ''sub'', ''b.XLS'']]"
  by code_simp

lemma ex_scan_none: "scan_files [([''d''], [''notes.txt'', ''~$a.xlsx'', ''xlsx''])] = []"
  by code_simp

lemma ex_scan_rev:
  "scan_files ex_walk_rev = [[''d'', ''sub'', ''b.XLS''], [''d'', ''bad.xlsm''], [''d'', ''a.xlsx'']]"
  by code_simp

text \<open>
  Claim C6. From what the walk of the tree lists (directories and file names, no file
  contents), the discoverer returns, in the order of the walk, the path of each file
  whose name ends with \<open>.xlsx\<close>, \<open>.xls\<close> or \<open>.xlsm\<close> in any mix of cases and does
  not begin with \<open>~$\<close>, and of no other file. When no name qualifies the result is the
  empty list.
\<close>

theorem scan_files_exact:
  "scan_files w = concat (map (\<lambda>(root, files). map (\<lambda>f. root @ [f]) (filter recognised files)) w)
   \<and> set (scan_files w) =
       {root @ [f] |root files f. (root, files) \<in> set w \<and> f \<in> set files \<and> recognised f}
   \<and> ((\<forall>(root, files)\<in>set w. \<forall>f\<in>set files. \<not> recognised f) \<longrightarrow> scan_files w = [])"
proof -
  have 1: "scan_files w =
      concat (map (\<lambda>(root, files). map (\<lambda>f. root @ [f]) (filter recognised files)) w)"
    by (simp add: scan_files_def scan_walk_eq)
  have 2: "set (scan_files w) =
       {root @ [f] |root files f. (root, files) \<in> set w \<and> f \<in> set files \<and> recognised f}"
    unfolding 1 by auto
  have 3: "(\<forall>(root, files)\<in>set w. \<forall>f\<in>set files. \<not> recognised f) \<longrightarrow> scan_files w = []"
  proof
    assume h: "\<forall>(root, files)\<in>set w. \<forall>f\<in>set files. \<not> recognised f"
    have "{root @ [f] |root files f. (root, files) \<in> set w \<and> f \<in> set files \<and> recognised f} = {}"
      using h by blast
    then have "set (scan_files w) = {}" by (simp only: 2)
    then show "scan_files w = []" by simp
  qed
  from 1 2 3 show ?thesis by blast
qed

theorem scan_files_exact_witness:
  "\<not> recognised ''notes.txt'' \<and> \<not> recognised ''~$a.xlsx'' \<and> \<not> recognised ''xlsx''
   \<and> scan_files [([''d''], [''notes.txt'', ''~$a.xlsx'', ''xlsx''])] = []
   \<and> scan_files ex_walk = [[''d'', ''a.xlsx''], [''d'', ''bad.xlsm''], [''d'', ''sub'', ''b.XLS'']]
   \<and> recognised ''b.XLS'' \<and> recognised ''Report.XlSm''"
proof -
  have n: "\<not> recognised ''notes.txt'' \<and> \<not> recognised ''~$a.xlsx'' \<and> \<not> recognised ''xlsx''"
    unfolding is_excel_recognised [symmetric] by code_simp
  then have h: "\<forall>(root, files)\<in>set [([''d''], [''notes.txt'', ''~$a.xlsx'', ''xlsx''])].
      \<forall>f\<in>set files. \<not> recognised f" by simp
  have r: "recognised ''b.XLS'' \<and> recognised ''Report.XlSm''"
    unfolding is_excel_recognised [symmetric] by code_simp
  from scan_files_exact [of "[([''d''], [''notes.txt'', ''~$a.xlsx'', ''xlsx''])]"] h
  have e: "scan_files [([''d''], [''notes.txt'', ''~$a.xlsx'', ''xlsx''])] = []" by blast
  show ?thesis by (rule conjI [OF n [THEN conjunct1] conjI [OF n [THEN conjunct2, THEN conjunct1]
        conjI [OF n [THEN conjunct2, THEN conjunct2] conjI [OF e conjI [OF ex_scan r]]]]])
qed


subsection \<open>Relative paths\<close>

lemma take_until_slash:
  "slash_free a \<Longrightarrow> takeWhile (\<lambda>c. c \<noteq> CHR ''/'') (a @ CHR ''/'' # b) = a"
  by (induction a) (auto simp: slash_free_def)

lemma slash_split:
  assumes "slash_free u" and "slash_free v" and "u @ CHR ''/'' # x = v @ CHR ''/'' # y"
  shows "u = v \<and> x = y"
proof -
  note tw = take_until_slash
  have "takeWhile (\<lambda>c. c \<noteq> CHR ''/'') (u @ CHR ''/'' # x)
      = takeWhile (\<lambda>c. c \<noteq> CHR ''/'') (v @ CHR ''/'' # y)"
    by (simp only: assms(3))
  then have "u = v" using assms(1,2) by (simp only: tw)
  then show ?thesis using assms(3) by simp
qed

lemma join_path_slash: "CHR ''/'' \<in> set (join_path (a # b # cs))"
  by simp

lemma join_path_inj:
  "xs \<noteq> [] \<Longrightarrow> ys \<noteq> [] \<Longrightarrow> \<forall>c\<in>set xs \<union> set ys. slash_free c \<Longrightarrow>
   join_path xs = join_path ys \<Longrightarrow> xs = ys"
proof (induction xs arbitrary: ys rule: join_path.induct)
  case 1
  then show ?case by simp
next
  case (2 c)
  show ?case
  proof (cases ys rule: join_path.cases)
    case 1
    then show ?thesis using 2 by simp
  next
    case (2 d)
    then show ?thesis using "2.prems" by simp
  next
    case (3 d e es)
    have e: "c = join_path (d # e # es)" using "2.prems"(4) 3 by simp
    have "CHR ''/'' \<in> set c" unfolding e by (rule join_path_slash)
    then show ?thesis using "2.prems"(3) by (simp add: slash_free_def)
  qed
next
  case (3 c c' cs)
  show ?case
  proof (cases ys rule: join_path.cases)
    case 1
    then show ?thesis using 3 by simp
  next
    case (2 d)
    have e: "join_path (c # c' # cs) = d" using "3.prems"(4) 2 by simp
    have "CHR ''/'' \<in> set d" unfolding e [symmetric] by (rule join_path_slash)
    then show ?thesis using "3.prems"(3) 2 by (simp add: slash_free_def)
  next
    case (3 d e es)
    have sf: "slash_free c" "slash_free d" using "3.prems" 3 by simp_all
    have "c @ CHR ''/'' # join_path (c' # cs) = d @ CHR ''/'' # join_path (e # es)"
      using "3.prems"(4) 3 by simp
    with sf have cd: "c = d" and j: "join_path (c' # cs) = join_path (e # es)"
      using slash_split by blast+
    have "c' # cs = e # es"
    proof (rule "3.IH")
      show "c' # cs \<noteq> []" by simp
      show "e # es \<noteq> []" by simp
      show "\<forall>c\<in>set (c' # cs) \<union> set (e # es). slash_free c" using "3.prems"(3) 3 by simp
      show "join_path (c' # cs) = join_path (e # es)" by (rule j)
    qed
    then show ?thesis using cd 3 by simp
  qed
qed

lemma rel_scanned:
  assumes "prefix dp root"
  shows "rel dp (root @ [f]) = join_path (drop (length dp) root @ [f])"
proof -
  from assms obtain r where r: "root = dp @ r" by (auto simp: prefix_def)
  show ?thesis
    by (simp add: rel_def get_relative_path_def relative_to_def init_def r str_path_def)
qed

text \<open>
  The files found by a scan of a directory tree have pairwise different relative paths:
  the hypothesis of the results on the table below holds for every walk of a tree.
\<close>

lemma walk_distinct_rel:
  assumes "walk_of_tree dp w"
  shows "distinct (map (rel dp) (scan_files w))"
proof -
  have d: "distinct (scan_files w)"
    using assms by (intro scan_files_distinct) (auto simp: walk_of_tree_def)
  have "inj_on (rel dp) (set (scan_files w))"
  proof (rule inj_onI)
    fix p q
    assume p: "p \<in> set (scan_files w)" and q: "q \<in> set (scan_files w)" and e: "rel dp p = rel dp q"
    from scan_files_mem [OF p] obtain r1 fs1 f1
      where 1: "(r1, fs1) \<in> set w" "f1 \<in> set fs1" "p = r1 @ [f1]" by blast
    from scan_files_mem [OF q] obtain r2 fs2 f2
      where 2: "(r2, fs2) \<in> set w" "f2 \<in> set fs2" "q = r2 @ [f2]" by blast
    from assms 1 have w1: "prefix dp r1" "\<forall>c\<in>set r1 \<union> set fs1. slash_free c"
      by (auto simp: walk_of_tree_def)
    from assms 2 have w2: "prefix dp r2" "\<forall>c\<in>set r2 \<union> set fs2. slash_free c"
      by (auto simp: walk_of_tree_def)
    have j: "join_path (drop (length dp) r1 @ [f1]) = join_path (drop (length dp) r2 @ [f2])"
      using e 1 2 w1 w2 by (simp add: rel_scanned)
    have sf: "\<forall>c\<in>set (drop (length dp) r1 @ [f1]) \<union> set (drop (length dp) r2 @ [f2]). slash_free c"
      using w1 w2 1 2 by (auto dest: in_set_dropD)
    have "drop (length dp) r1 @ [f1] = drop (length dp) r2 @ [f2]"
      by (rule join_path_inj [OF _ _ sf j]) simp_all
    then have "drop (length dp) r1 = drop (length dp) r2" and f: "f1 = f2" by simp_all
    moreover from w1 w2 obtain a b where "r1 = dp @ a" "r2 = dp @ b" by (auto simp: prefix_def)
    ultimately have "r1 = r2" by simp
    then show "p = q" using f 1 2 by simp
  qed
  then show ?thesis using d by (simp add: distinct_map)
qed

lemma ex_walk_of_tree: "walk_of_tree [''d''] ex_walk \<and> walk_of_tree [''d''] ex_walk_rev"
  by (simp add: walk_of_tree_def ex_walk_def ex_walk_rev_def slash_free_def)

lemma ex_distinct: "distinct (map (rel [''d'']) (scan_files ex_walk))"
  by code_simp


subsection \<open>Reading one sheet\<close>

lemma update_fresh: "map_of d k = None \<Longrightarrow> AList.update k v d = d @ [(k, v)]"
  by (induction d) (auto split: if_splits)

lemma row_step_new:
  "row_key r \<noteq> '''' \<Longrightarrow> map_of d (row_key r) = None \<Longrightarrow>
   row_step r (d, ko, K) = (d @ [(row_key r, row_value r)], ko @ [row_key r], insert (row_key r) K)"
  by (simp add: row_step_def Let_def update_fresh)

lemma row_step_old:
  "\<not> (row_key r \<noteq> '''' \<and> map_of d (row_key r) = None) \<Longrightarrow> row_step r (d, ko, K) = (d, ko, K)"
  by (auto simp: row_step_def Let_def)

lemma read_rows_dict:
  "map_of (fst (read_rows df (d, ko, K))) = map_of (d @ pairs df)"
proof (induction df arbitrary: d ko K)
  case Nil
  show ?case by (simp add: pairs_def valid_rows_def)
next
  case (Cons r df)
  show ?case
  proof (cases "row_key r \<noteq> '''' \<and> map_of d (row_key r) = None")
    case True
    then have "row_step r (d, ko, K) = (d @ [(row_key r, row_value r)], ko @ [row_key r], insert (row_key r) K)"
      by (simp add: row_step_new)
    then show ?thesis using True Cons.IH by (simp add: pairs_def valid_rows_def)
  next
    case False
    then have st: "row_step r (d, ko, K) = (d, ko, K)"
      by (rule row_step_old)
    show ?thesis
    proof (cases "row_key r = ''''")
      case True
      then show ?thesis using st Cons.IH by (simp add: pairs_def valid_rows_def)
    next
      case False
      with \<open>\<not> (row_key r \<noteq> '''' \<and> map_of d (row_key r) = None)\<close>
      obtain v where v: "map_of d (row_key r) = Some v" by auto
      have "map_of (d @ (row_key r, row_value r) # pairs df) = map_of (d @ pairs df)"
        using v by (auto simp: fun_eq_iff map_add_def split: option.splits)
      then show ?thesis using st Cons.IH False by (simp add: pairs_def valid_rows_def)
    qed
  qed
qed

lemma read_rows_order:
  "fst (snd (read_rows df (d, map fst d, K))) = map fst (fst (read_rows df (d, map fst d, K)))"
proof (induction df arbitrary: d K)
  case Nil
  then show ?case by simp
next
  case (Cons r df)
  show ?case
  proof (cases "row_key r \<noteq> '''' \<and> map_of d (row_key r) = None")
    case True
    then have "row_step r (d, map fst d, K) =
        (d @ [(row_key r, row_value r)], map fst (d @ [(row_key r, row_value r)]), insert (row_key r) K)"
      by (simp add: row_step_new)
    then show ?thesis using Cons.IH [of "d @ [(row_key r, row_value r)]"] by simp
  next
    case False
    then have "row_step r (d, map fst d, K) = (d, map fst d, K)" by (rule row_step_old)
    then show ?thesis using Cons.IH by simp
  qed
qed

lemma read_rows_distinct:
  "distinct (map fst d) \<Longrightarrow> distinct (map fst (fst (read_rows df (d, ko, K))))"
proof (induction df arbitrary: d ko K)
  case Nil
  then show ?case by simp
next
  case (Cons r df)
  show ?case
  proof (cases "row_key r \<noteq> '''' \<and> map_of d (row_key r) = None")
    case True
    then have st: "row_step r (d, ko, K) = (d @ [(row_key r, row_value r)], ko @ [row_key r], insert (row_key r) K)"
      by (simp add: row_step_new)
    have "row_key r \<notin> fst ` set d" using True by (simp add: map_of_eq_None_iff)
    then have "distinct (map fst (d @ [(row_key r, row_value r)]))" using Cons.prems by simp
    then show ?thesis using st Cons.IH by simp
  next
    case False
    then have "row_step r (d, ko, K) = (d, ko, K)" by (rule row_step_old)
    then show ?thesis using Cons by simp
  qed
qed

lemma read_rows_keys:
  "snd (snd (read_rows df (d, ko, K))) = K \<union> (fst ` set (pairs df) - fst ` set d)"
proof (induction df arbitrary: d ko K)
  case Nil
  show ?case by (simp add: pairs_def valid_rows_def)
next
  case (Cons r df)
  show ?case
  proof (cases "row_key r \<noteq> '''' \<and> map_of d (row_key r) = None")
    case True
    then have st: "row_step r (d, ko, K) = (d @ [(row_key r, row_value r)], ko @ [row_key r], insert (row_key r) K)"
      by (simp add: row_step_new)
    have "row_key r \<notin> fst ` set d" using True by (simp add: map_of_eq_None_iff)
    then show ?thesis using st True Cons.IH by (auto simp: pairs_def valid_rows_def)
  next
    case False
    then have st: "row_step r (d, ko, K) = (d, ko, K)" by (rule row_step_old)
    have "row_key r = '''' \<or> row_key r \<in> fst ` set d"
      using False by (auto simp: map_of_eq_None_iff)
    then show ?thesis using st Cons.IH by (auto simp: pairs_def valid_rows_def)
  qed
qed

lemma read_rows_dom:
  "fst ` set (fst (read_rows df (d, ko, K))) = fst ` set d \<union> fst ` set (pairs df)"
proof -
  have "dom (map_of (fst (read_rows df (d, ko, K)))) = dom (map_of (d @ pairs df))"
    by (simp only: read_rows_dict)
  then show ?thesis by (simp add: dom_map_of_conv_image_fst Un_commute)
qed

lemma read_rows_skip:
  "row_key r = '''' \<Longrightarrow> read_rows (rs1 @ r # rs2) st = read_rows (rs1 @ rs2) st"
proof (induction rs1 arbitrary: st)
  case Nil
  obtain d ko K where "st = (d, ko, K)" by (cases st) auto
  then show ?case using Nil by (simp add: row_step_old)
next
  case (Cons a rs1)
  then show ?case by simp
qed

lemma read_rows_fst_indep:
  "fst (read_rows df (d, ko, K)) = fst (read_rows df (d, ko', K'))"
proof (induction df arbitrary: d ko K ko' K')
  case Nil
  show ?case by simp
next
  case (Cons r df)
  show ?case
  proof (cases "row_key r \<noteq> '''' \<and> map_of d (row_key r) = None")
    case True
    then show ?thesis using Cons.IH by (simp add: row_step_new)
  next
    case False
    then show ?thesis using Cons.IH by (simp add: row_step_old)
  qed
qed

lemma rev_split: "m = rev (dropWhile P (rev m)) @ rev (takeWhile P (rev m))"
proof -
  have "rev (takeWhile P (rev m) @ dropWhile P (rev m)) = m"
    by (simp only: takeWhile_dropWhile_id rev_rev_ident)
  then show ?thesis by (simp only: rev_append)
qed

lemma strip_decomp:
  "\<exists>l t. c = l @ strip c @ t \<and> list_all isspace l \<and> list_all isspace t"
proof -
  define m where "m = dropWhile isspace c"
  have c: "c = takeWhile isspace c @ m" by (simp add: m_def)
  have m: "m = strip c @ rev (takeWhile isspace (rev m))"
    using rev_split [of m isspace] by (simp add: strip_def m_def)
  have 1: "list_all isspace (takeWhile isspace c)"
    by (simp add: list_all_iff) (meson set_takeWhileD)
  have 2: "list_all isspace (rev (takeWhile isspace (rev m)))"
    by (simp add: list_all_iff) (meson set_takeWhileD)
  from c m have "c = takeWhile isspace c @ strip c @ rev (takeWhile isspace (rev m))" by simp
  with 1 2 show ?thesis by blast
qed

lemma strip_ends:
  assumes "strip c \<noteq> []"
  shows "\<not> isspace (hd (strip c)) \<and> \<not> isspace (last (strip c))"
proof -
  define m where "m = dropWhile isspace c"
  have s: "strip c = rev (dropWhile isspace (rev m))" by (simp add: strip_def m_def)
  with assms have ne: "dropWhile isspace (rev m) \<noteq> []" by simp
  then have "\<not> isspace (hd (dropWhile isspace (rev m)))" by (rule hd_dropWhile)
  then have l: "\<not> isspace (last (strip c))" using ne by (simp add: s last_rev)
  from ne have mne: "m \<noteq> []" by auto
  then have hm: "\<not> isspace (hd m)" unfolding m_def by (rule hd_dropWhile)
  have "m = strip c @ rev (takeWhile isspace (rev m))"
    using rev_split [of m isspace] by (simp add: s)
  then have "hd m = hd (strip c)" using assms by (metis hd_append2)
  with hm l show ?thesis by simp
qed

text \<open>
  Claim C7. In the loop over the rows an absent key cell and an absent value cell become
  the empty string, a present value is taken as it is, and a present key is stripped: the
  cell is some whitespace, then the key, then some whitespace, and a non-empty key neither
  starts nor ends with whitespace. A row whose stripped key is empty leaves the mapping,
  the key list and the key set as they were, and a sheet with such a row is read exactly
  as the sheet without it.
\<close>

theorem blank_key_row_skipped:
  "row_key (None, v) = '''' \<and> row_value (k, None) = '''' \<and> row_value (k, Some x) = x
   \<and> row_key (Some c, v) = strip c
   \<and> (\<exists>l t. c = l @ strip c @ t \<and> list_all isspace l \<and> list_all isspace t)
   \<and> (strip c \<noteq> '''' \<longrightarrow> \<not> isspace (hd (strip c)) \<and> \<not> isspace (last (strip c)))
   \<and> (row_key r = '''' \<longrightarrow>
        row_step r st = st
        \<and> read_excel (\<lambda>q. Inr (rs1 @ r # rs2)) s p = read_excel (\<lambda>q. Inr (rs1 @ rs2)) s p)"
proof -
  obtain d ko K where st: "st = (d, ko, K)" by (cases st) auto
  have a: "row_key (None, v) = '''' \<and> row_value (k, None) = '''' \<and> row_value (k, Some x) = x
     \<and> row_key (Some c, v) = strip c"
    by (simp add: row_key_def row_value_def)
  have b: "row_key r = '''' \<longrightarrow> row_step r st = st"
    by (simp add: st row_step_old)
  have c: "row_key r = '''' \<longrightarrow>
      read_excel (\<lambda>q. Inr (rs1 @ r # rs2)) s p = read_excel (\<lambda>q. Inr (rs1 @ rs2)) s p"
    by (simp add: read_excel_def read_rows_skip)
  from a b c strip_decomp [of c] strip_ends [of c] show ?thesis by blast
qed

theorem blank_key_row_skipped_witness:
  "row_key (Some '' \<newline> '', Some ''v'') = ''''
   \<and> row_step (Some '' \<newline> '', Some ''v'') ([(''a'', ''1'')], [''a''], {''a''}) = ([(''a'', ''1'')], [''a''], {''a''})
   \<and> strip ''  Name '' = ''Name'' \<and> \<not> isspace (hd (strip ''  Name ''))
   \<and> fst (read_excel (\<lambda>q. Inr [(Some ''k'', Some ''1''), (Some '' \<newline> '', Some ''v''), (None, None)]) (init []) [''f.xlsx''])
       = [(''k'', ''1'')]"
proof -
  have k: "row_key (Some '' \<newline> '', Some ''v'') = ''''" by code_simp
  have s: "strip ''  Name '' \<noteq> ''''" by code_simp
  have e: "fst (read_excel (\<lambda>q. Inr ([(Some ''k'', Some ''1'')] @ [(None, None)])) (init []) [''f.xlsx''])
       = [(''k'', ''1'')]" by code_simp
  have n: "strip ''  Name '' = ''Name''" by code_simp
  from blank_key_row_skipped [where c = "''  Name ''" and r = "(Some '' \<newline> '', Some ''v'')"
      and st = "([(''a'', ''1'')], [''a''], {''a''})" and ?rs1.0 = "[(Some ''k'', Some ''1'')]"
      and ?rs2.0 = "[(None, None)]" and s = "init []" and p = "[''f.xlsx'']"] k s e n
  show ?thesis by simp
qed

lemma extracted_eq:
  "extracted rd p = (case rd p of Inl e \<Rightarrow> [] | Inr df \<Rightarrow> fst (read_rows df ([], [], {})))"
  by (simp add: extracted_def read_excel_def init_def split: sum.splits prod.splits)

lemma read_excel_fst: "fst (read_excel rd s p) = extracted rd p"
proof (cases "rd p")
  case (Inl e)
  then show ?thesis by (simp add: extracted_eq read_excel_def)
next
  case (Inr df)
  obtain d ko K where r: "read_rows df ([], [], all_keys s) = (d, ko, K)"
    by (cases "read_rows df ([], [], all_keys s)") auto
  have "fst (read_rows df ([], [], all_keys s)) = fst (read_rows df ([], [], {}))"
    by (rule read_rows_fst_indep)
  then show ?thesis using Inr r by (simp add: extracted_eq read_excel_def)
qed

lemma read_excel_fail: "rd p = Inl e \<Longrightarrow> read_excel rd s p = ([], s)"
  by (simp add: read_excel_def)

lemma read_excel_ok:
  assumes "rd p = Inr df"
  shows "snd (read_excel rd s p) =
     s\<lparr>all_keys := all_keys s \<union> fst ` set (extracted rd p),
       file_order := AList.update (get_relative_path s p) (map fst (extracted rd p)) (file_order s)\<rparr>"
proof -
  obtain d ko K where r: "read_rows df ([], [], all_keys s) = (d, ko, K)"
    by (cases "read_rows df ([], [], all_keys s)") auto
  have d: "d = extracted rd p"
    using read_excel_fst [of rd s p] assms r by (simp add: read_excel_def)
  have ko: "ko = map fst d" using read_rows_order [of df "[]" "all_keys s"] r by simp
  have K: "K = all_keys s \<union> fst ` set d"
    using read_rows_keys [of df "[]" "[]" "all_keys s"] read_rows_dom [of df "[]" "[]" "all_keys s"] r
    by simp
  show ?thesis using assms r d ko K by (simp add: read_excel_def)
qed

lemma get_relative_path_cong:
  "data_path s = data_path s' \<Longrightarrow> get_relative_path s p = get_relative_path s' p"
  by (simp add: get_relative_path_def)

lemma read_excel_data_path: "data_path (snd (read_excel rd s p)) = data_path s"
  by (cases "rd p") (simp_all add: read_excel_fail read_excel_ok)

lemma read_excel_file_data: "file_data (snd (read_excel rd s p)) = file_data s"
  by (cases "rd p") (simp_all add: read_excel_fail read_excel_ok)

lemma read_excel_all_keys:
  "all_keys (snd (read_excel rd s p)) = all_keys s \<union> fst ` set (extracted rd p)"
proof (cases "rd p")
  case (Inl e)
  then show ?thesis by (simp add: read_excel_fail extracted_eq)
next
  case (Inr df)
  then show ?thesis by (simp add: read_excel_ok)
qed

lemma extracted_keys:
  "rd p = Inr df \<Longrightarrow> fst ` set (extracted rd p) = {row_key r |r. r \<in> set df \<and> row_key r \<noteq> ''''}"
proof -
  assume "rd p = Inr df"
  then have "fst ` set (extracted rd p) = fst ` set (pairs df)"
    using read_rows_dom [of df "[]" "[]" "{}"] by (simp add: extracted_eq)
  also have "\<dots> = {row_key r |r. r \<in> set df \<and> row_key r \<noteq> ''''}"
    by (force simp: pairs_def valid_rows_def)
  finally show ?thesis .
qed

lemma extracted_fail: "rd p = Inl e \<Longrightarrow> extracted rd p = []"
  by (simp add: extracted_eq)

lemma pairs_Cons:
  "pairs (r # df) = (if row_key r \<noteq> '''' then (row_key r, row_value r) # pairs df else pairs df)"
  by (simp add: pairs_def valid_rows_def)

lemma pairs_first:
  "i < length df \<Longrightarrow> row_key (df ! i) = k \<Longrightarrow> k \<noteq> '''' \<Longrightarrow> \<forall>j<i. row_key (df ! j) \<noteq> k \<Longrightarrow>
   map_of (pairs df) k = Some (row_value (df ! i))"
proof (induction df arbitrary: i)
  case Nil
  then show ?case by simp
next
  case (Cons r df)
  show ?case
  proof (cases i)
    case 0
    then show ?thesis using Cons.prems by (simp add: pairs_Cons)
  next
    case (Suc n)
    have r: "row_key r \<noteq> k" using Cons.prems(4) Suc by auto
    have "\<forall>j<n. row_key (df ! j) \<noteq> k" using Cons.prems(4) Suc by auto
    then have "map_of (pairs df) k = Some (row_value (df ! n))"
      using Cons.IH [of n] Cons.prems Suc by simp
    then show ?thesis using r Suc by (simp add: pairs_Cons)
  qed
qed

lemma extracted_map_of: "rd p = Inr df \<Longrightarrow> map_of (extracted rd p) = map_of (pairs df)"
  using read_rows_dict [of df "[]" "[]" "{}"] by (simp add: extracted_eq)

lemma extracted_distinct: "distinct (map fst (extracted rd p))"
proof (cases "rd p")
  case (Inl e)
  then show ?thesis by (simp add: extracted_eq)
next
  case (Inr df)
  then show ?thesis using read_rows_distinct [of "[]" df "[]" "{}"] by (simp add: extracted_eq)
qed

lemma distinct_count_list: "distinct xs \<Longrightarrow> x \<in> set xs \<Longrightarrow> count_list xs x = 1"
  by (induction xs) (auto simp: count_list_0_iff)

lemma key_list_read_excel:
  "rd p = Inr df \<Longrightarrow>
   key_list (snd (read_excel rd s p)) (get_relative_path s p) = map fst (extracted rd p)"
  by (simp add: read_excel_ok key_list_def update_conv')


subsection \<open>Reading all files\<close>

lemma read_all_data_path: "data_path (read_all rd files s) = data_path s"
proof (induction files arbitrary: s)
  case Nil
  show ?case by simp
next
  case (Cons p files)
  obtain d s' where r: "read_excel rd s p = (d, s')" by (cases "read_excel rd s p") auto
  have "data_path s' = data_path s" using read_excel_data_path [of rd s p] r by simp
  then show ?case using r Cons.IH by simp
qed

lemma read_all_all_keys:
  "all_keys (read_all rd files s) = all_keys s \<union> (\<Union>p\<in>set files. fst ` set (extracted rd p))"
proof (induction files arbitrary: s)
  case Nil
  show ?case by simp
next
  case (Cons p files)
  obtain d s' where r: "read_excel rd s p = (d, s')" by (cases "read_excel rd s p") auto
  have "all_keys s' = all_keys s \<union> fst ` set (extracted rd p)"
    using read_excel_all_keys [of rd s p] r by simp
  then show ?case using r Cons.IH by (simp add: Un_assoc)
qed

lemma read_all_file_data:
  "file_data (read_all rd files s) =
     fold (\<lambda>p. AList.update (get_relative_path s p) (extracted rd p)) files (file_data s)"
proof (induction files arbitrary: s)
  case Nil
  show ?case by simp
next
  case (Cons p files)
  obtain d s' where r: "read_excel rd s p = (d, s')" by (cases "read_excel rd s p") auto
  have d: "d = extracted rd p" using read_excel_fst [of rd s p] r by simp
  have fd: "file_data s' = file_data s" using read_excel_file_data [of rd s p] r by simp
  have dp: "data_path s' = data_path s" using read_excel_data_path [of rd s p] r by simp
  let ?s = "s'\<lparr>file_data := AList.update (get_relative_path s p) d (file_data s')\<rparr>"
  have "\<And>q. get_relative_path ?s q = get_relative_path s q"
    using dp by (simp add: get_relative_path_def)
  then show ?case using r d fd Cons.IH [of ?s] by simp
qed

lemma fold_update_distinct:
  "distinct (map fst al @ map f xs) \<Longrightarrow>
   fold (\<lambda>p. AList.update (f p) (g p)) xs al = al @ map (\<lambda>p. (f p, g p)) xs"
proof (induction xs arbitrary: al)
  case Nil
  show ?case by simp
next
  case (Cons x xs)
  have "f x \<notin> fst ` set al" using Cons.prems by auto
  then have u: "AList.update (f x) (g x) al = al @ [(f x, g x)]"
    by (simp add: update_fresh map_of_eq_None_iff)
  have "distinct (map fst (al @ [(f x, g x)]) @ map f xs)" using Cons.prems by auto
  then show ?case using Cons.IH [of "al @ [(f x, g x)]"] u by simp
qed

lemma fold_update_same:
  "\<forall>p\<in>set xs. map_of al (f p) = Some (g p) \<Longrightarrow> fold (\<lambda>p. AList.update (f p) (g p)) xs al = al"
  by (induction xs) (simp_all add: update_triv)

lemma map_of_rows:
  "distinct (map f xs) \<Longrightarrow> p \<in> set xs \<Longrightarrow> map_of (map (\<lambda>p. (f p, g p)) xs) (f p) = Some (g p)"
proof (induction xs)
  case Nil
  then show ?case by simp
next
  case (Cons x xs)
  then show ?case by (cases "x = p") (auto simp: image_iff)
qed

lemma read_all_key_list_absent:
  "map_of (file_order s) r = None \<Longrightarrow>
   \<forall>q\<in>set files. get_relative_path s q = r \<longrightarrow> (\<exists>e. rd q = Inl e) \<Longrightarrow>
   map_of (file_order (read_all rd files s)) r = None"
proof (induction files arbitrary: s)
  case Nil
  then show ?case by simp
next
  case (Cons p files)
  obtain d s' where rs: "read_excel rd s p = (d, s')" by (cases "read_excel rd s p") auto
  let ?s = "s'\<lparr>file_data := AList.update (get_relative_path s p) d (file_data s')\<rparr>"
  have dp: "data_path s' = data_path s" using read_excel_data_path [of rd s p] rs by simp
  have g: "\<And>q. get_relative_path ?s q = get_relative_path s q"
    using dp by (simp add: get_relative_path_def)
  have fo: "map_of (file_order s') r = None"
  proof (cases "rd p")
    case (Inl e)
    then show ?thesis using rs Cons.prems(1) by (simp add: read_excel_fail)
  next
    case (Inr df)
    then have "get_relative_path s p \<noteq> r" using Cons.prems(2) by auto
    then show ?thesis using read_excel_ok [of rd p df s] Inr rs Cons.prems(1)
      by (simp add: update_conv')
  qed
  have "map_of (file_order (read_all rd files ?s)) r = None"
  proof (rule Cons.IH)
    show "map_of (file_order ?s) r = None" using fo by simp
    show "\<forall>q\<in>set files. get_relative_path ?s q = r \<longrightarrow> (\<exists>e. rd q = Inl e)"
      using Cons.prems(2) g by simp
  qed
  then show ?case using rs by simp
qed


subsection \<open>Building the rows\<close>

lemma agrees_update: "agrees data vm \<Longrightarrow> agrees data (AList.update k (dict_get data k '''') vm)"
  by (simp add: agrees_def update_conv')

lemma agrees_comprehend: "agrees data vm \<Longrightarrow> agrees data (comprehend data ks vm)"
  by (induction ks arbitrary: vm) (simp_all add: agrees_update)

lemma agrees_supplement: "agrees data vm \<Longrightarrow> agrees data (supplement data ks vm)"
  by (induction ks arbitrary: vm) (simp_all add: agrees_update)

lemma supplement_mono: "map_of vm k = Some v \<Longrightarrow> \<exists>v'. map_of (supplement data ks vm) k = Some v'"
proof (induction ks arbitrary: vm v)
  case Nil
  then show ?case by simp
next
  case (Cons a ks)
  show ?case
  proof (cases "map_of vm a = None")
    case True
    have "\<exists>u. map_of (AList.update a (dict_get data a '''') vm) k = Some u"
      using Cons.prems by (simp add: update_conv')
    then obtain u where "map_of (AList.update a (dict_get data a '''') vm) k = Some u" ..
    from Cons.IH [OF this] show ?thesis using True by simp
  next
    case False
    then show ?thesis using Cons.IH [OF Cons.prems] by auto
  qed
qed

lemma supplement_covers: "k \<in> set ks \<Longrightarrow> \<exists>v. map_of (supplement data ks vm) k = Some v"
proof (induction ks arbitrary: vm)
  case Nil
  then show ?case by simp
next
  case (Cons a ks)
  show ?case
  proof (cases "k = a")
    case True
    show ?thesis
    proof (cases "map_of vm a")
      case None
      have "map_of (AList.update a (dict_get data a '''') vm) a = Some (dict_get data a '''')"
        by (simp add: update_conv')
      from supplement_mono [OF this] show ?thesis using None True by simp
    next
      case (Some u)
      from supplement_mono [OF this] show ?thesis using Some True by simp
    qed
  next
    case False
    then have "k \<in> set ks" using Cons.prems by simp
    then show ?thesis using Cons.IH by simp
  qed
qed

lemma index_all_cells:
  "agrees data vm \<Longrightarrow> \<forall>k\<in>set ks. \<exists>v. map_of vm k = Some v \<Longrightarrow>
   index_all vm ks = Inr (map (\<lambda>k. dict_get data k '''') ks)"
proof (induction ks)
  case Nil
  show ?case by simp
next
  case (Cons a ks)
  from Cons.prems(2) obtain v where v: "map_of vm a = Some v" by auto
  with Cons.prems(1) have "v = dict_get data a ''''" by (simp add: agrees_def)
  with v Cons show ?case by simp
qed

lemma build_row_eq: "build_row s ks item = Inr (table_row ks item)"
proof -
  obtain rel data where item: "item = (rel, data)" by (cases item) auto
  define fks where "fks = key_list s rel"
  define vm where "vm = supplement data ks (comprehend data fks [])"
  have "agrees data []" by (simp add: agrees_def)
  then have a: "agrees data vm" unfolding vm_def by (intro agrees_supplement agrees_comprehend)
  have c: "\<forall>k\<in>set ks. \<exists>v. map_of vm k = Some v"
    unfolding vm_def using supplement_covers by blast
  have "index_all vm ks = Inr (map (\<lambda>k. dict_get data k '''') ks)"
    using a c by (rule index_all_cells)
  then show ?thesis
    by (simp add: build_row_def item fks_def vm_def table_row_def cells_def dict_get_def)
qed

lemma build_rows_eq: "build_rows s ks items acc = Inr (acc @ map (table_row ks) items)"
  by (induction items arbitrary: acc) (simp_all add: build_row_eq)

lemma consolidate_eq:
  "consolidate w rd sv s =
     (if scan_files w = [] then \<lparr>success = False, handed = None, final = s\<rparr>
      else if all_keys (read_all rd (scan_files w) s) = {}
        then \<lparr>success = False, handed = None, final = read_all rd (scan_files w) s\<rparr>
      else \<lparr>success = (sv (assembled (read_all rd (scan_files w) s)) = Inr ()),
             handed = Some (assembled (read_all rd (scan_files w) s)),
             final = read_all rd (scan_files w) s\<rparr>)"
  by (simp add: consolidate_def Let_def build_rows_eq assembled_def split: sum.splits)

lemma cells_cell_of: "cells ks data = map (cell_of data) ks"
  by (simp add: cells_def cell_of_def)

lemma cells_of_nothing: "map (cell_of []) ks = replicate (length ks) ''''"
  by (induction ks) (simp_all add: cell_of_def)

lemma nth_map_cell:
  "j < length ks \<Longrightarrow> (rel dp p # map (cell_of d) ks) ! Suc j = cell_of d (ks ! j)"
  by simp


subsection \<open>A run on a fresh engine\<close>

lemma finite_universe: "finite (universe rd files)"
  by (simp add: universe_def)

lemma universe_nonempty_files: "universe rd files \<noteq> {} \<Longrightarrow> files \<noteq> []"
  by (auto simp: universe_def)

lemma universe_cong: "set files1 = set files2 \<Longrightarrow> universe rd files1 = universe rd files2"
  by (simp add: universe_def)

lemma fresh_all_keys: "all_keys (read_all rd files (init dp)) = universe rd files"
  by (simp add: read_all_all_keys universe_def init_def)

lemma fresh_file_data:
  assumes "distinct (map (rel dp) files)"
  shows "file_data (read_all rd files (init dp)) = map (\<lambda>p. (rel dp p, extracted rd p)) files"
proof -
  have "file_data (read_all rd files (init dp)) =
      fold (\<lambda>p. AList.update (rel dp p) (extracted rd p)) files (file_data (init dp))"
    unfolding rel_def by (rule read_all_file_data)
  also have "file_data (init dp) = []" by (simp add: init_def)
  also have "fold (\<lambda>p. AList.update (rel dp p) (extracted rd p)) files [] =
      [] @ map (\<lambda>p. (rel dp p, extracted rd p)) files"
    by (rule fold_update_distinct) (simp add: assms)
  finally show ?thesis by simp
qed

lemma fresh_assembled:
  assumes "distinct (map (rel dp) files)"
  shows "assembled (read_all rd files (init dp)) =
     (''Source File'' # sorted_list_of_set (universe rd files))
       # map (\<lambda>p. rel dp p # map (cell_of (extracted rd p)) (sorted_list_of_set (universe rd files))) files"
  by (simp add: assembled_def fresh_all_keys fresh_file_data [OF assms] table_row_def cells_cell_of
      comp_def)

lemma fresh_handed:
  "handed (consolidate w rd sv (init dp)) =
     (if scan_files w = [] \<or> universe rd (scan_files w) = {} then None
      else Some (assembled (read_all rd (scan_files w) (init dp))))"
  by (simp add: consolidate_eq fresh_all_keys)

lemma fresh_success:
  "success (consolidate w rd sv (init dp)) =
     (scan_files w \<noteq> [] \<and> universe rd (scan_files w) \<noteq> {}
        \<and> sv (assembled (read_all rd (scan_files w) (init dp))) = Inr ())"
  by (simp add: consolidate_eq fresh_all_keys)

lemma fresh_table:
  assumes "distinct (map (rel dp) (scan_files w))"
    and "universe rd (scan_files w) \<noteq> {}"
  shows "\<exists>ks. sorted_wrt (<) ks \<and> set ks = universe rd (scan_files w)
     \<and> consolidate w rd sv (init dp) =
         \<lparr>success =
            (sv ((''Source File'' # ks)
               # map (\<lambda>p. rel dp p # map (cell_of (extracted rd p)) ks) (scan_files w)) = Inr ()),
          handed = Some ((''Source File'' # ks)
               # map (\<lambda>p. rel dp p # map (cell_of (extracted rd p)) ks) (scan_files w)),
          final = read_all rd (scan_files w) (init dp)\<rparr>"
proof -
  let ?ks = "sorted_list_of_set (universe rd (scan_files w))"
  have f: "finite (universe rd (scan_files w))" by (rule finite_universe)
  have 1: "sorted_wrt (<) ?ks" by (rule strict_sorted_list_of_set)
  have 2: "set ?ks = universe rd (scan_files w)" using f by simp
  have ne: "scan_files w \<noteq> []" using assms(2) by (rule universe_nonempty_files)
  have 3: "consolidate w rd sv (init dp) =
         \<lparr>success =
            (sv ((''Source File'' # ?ks)
               # map (\<lambda>p. rel dp p # map (cell_of (extracted rd p)) ?ks) (scan_files w)) = Inr ()),
          handed = Some ((''Source File'' # ?ks)
               # map (\<lambda>p. rel dp p # map (cell_of (extracted rd p)) ?ks) (scan_files w)),
          final = read_all rd (scan_files w) (init dp)\<rparr>"
    using ne assms(2) fresh_assembled [OF assms(1), of rd]
    by (simp add: consolidate_eq fresh_all_keys)
  from 1 2 3 show ?thesis by blast
qed

lemma rerun_state:
  assumes "distinct (map (rel dp) files)"
  shows "all_keys (read_all rd files (read_all rd files (init dp))) = all_keys (read_all rd files (init dp))
     \<and> file_data (read_all rd files (read_all rd files (init dp))) = file_data (read_all rd files (init dp))"
proof -
  let ?s = "read_all rd files (init dp)"
  have g: "\<And>p. get_relative_path ?s p = rel dp p"
    by (simp add: get_relative_path_def rel_def read_all_data_path)
  have k: "all_keys (read_all rd files ?s) = all_keys ?s"
    by (simp add: read_all_all_keys [of rd files ?s] fresh_all_keys universe_def)
  have "file_data (read_all rd files ?s) =
      fold (\<lambda>p. AList.update (rel dp p) (extracted rd p)) files (file_data ?s)"
    by (simp add: read_all_file_data [of rd files ?s] g)
  also have "\<dots> = file_data ?s"
    by (rule fold_update_same) (simp add: fresh_file_data [OF assms] map_of_rows [OF assms])
  finally show ?thesis using k by simp
qed

lemma mset_map_cong: "mset xs = mset ys \<Longrightarrow> mset (map f xs) = mset (map f ys)"
proof -
  assume "mset xs = mset ys"
  then have "image_mset f (mset xs) = image_mset f (mset ys)" by (rule arg_cong)
  then show ?thesis by (simp only: mset_map)
qed

lemma distinct_perm: "mset xs = mset ys \<Longrightarrow> distinct xs \<Longrightarrow> distinct ys"
  using mset_eq_imp_distinct_iff [of xs ys] by blast

lemma ex_universe: "universe ex_read (scan_files ex_walk) \<noteq> {}"
  by code_simp

lemma ex_handed:
  "handed (consolidate ex_walk ex_read (\<lambda>t. Inr ()) (init [''d''])) = Some ex_table"
  by code_simp


subsection \<open>The table\<close>

text \<open>
  The order of the keys is the order of \<^verbatim>\<open>sorted\<close> on strings: lexicographic by code
  point, a proper prefix first, upper case before lower case.
\<close>

lemma string_order:
  "(xs :: string) < ys \<longleftrightarrow> (xs, ys) \<in> lexord {(a, b). (of_char a :: nat) < of_char b}"
  by (simp add: list_less_def less_char_def)

lemma string_order_examples: "''B'' < ''a'' \<and> ''a'' < ''ab'' \<and> ''Zebra'' < ''apple''"
  by code_simp

text \<open>
  Claim C1. When the files have pairwise different relative paths and some file has a key,
  the table given to the export is the header row, \<open>Source File\<close> and then the key
  universe in strictly increasing order, followed by one row for each file in turn: its
  relative path and then, for each key of the header, the value of the file's mapping at
  the key, or the empty string when the mapping has no such key.
\<close>

theorem consolidated_table_layout:
  assumes "distinct (map (rel dp) (scan_files w))"
    and "universe rd (scan_files w) \<noteq> {}"
  shows "\<exists>ks. sorted_wrt (<) ks \<and> set ks = universe rd (scan_files w)
     \<and> handed (consolidate w rd sv (init dp)) =
         Some ((''Source File'' # ks)
               # map (\<lambda>p. rel dp p
                       # map (\<lambda>k. case map_of (extracted rd p) k of Some v \<Rightarrow> v | None \<Rightarrow> '''') ks)
                   (scan_files w))"
proof -
  let ?ks = "sorted_list_of_set (universe rd (scan_files w))"
  have f: "finite (universe rd (scan_files w))" by (rule finite_universe)
  have 1: "sorted_wrt (<) ?ks" by (rule strict_sorted_list_of_set)
  have 2: "set ?ks = universe rd (scan_files w)" using f by simp
  have ne: "scan_files w \<noteq> []" using assms(2) by (rule universe_nonempty_files)
  have 3: "handed (consolidate w rd sv (init dp)) =
         Some ((''Source File'' # ?ks)
               # map (\<lambda>p. rel dp p
                       # map (\<lambda>k. case map_of (extracted rd p) k of Some v \<Rightarrow> v | None \<Rightarrow> '''') ?ks)
                   (scan_files w))"
    using ne assms(2) fresh_assembled [OF assms(1), of rd]
    by (simp add: fresh_handed cell_of_def [abs_def])
  from 1 2 3 show ?thesis by blast
qed

theorem consolidated_table_layout_witness:
  "distinct (map (rel [''d'']) (scan_files ex_walk))
   \<and> universe ex_read (scan_files ex_walk) \<noteq> {}
   \<and> (\<exists>ks. sorted_wrt (<) ks \<and> set ks = universe ex_read (scan_files ex_walk)
     \<and> handed (consolidate ex_walk ex_read (\<lambda>t. Inr ()) (init [''d''])) =
         Some ((''Source File'' # ks)
               # map (\<lambda>p. rel [''d''] p
                       # map (\<lambda>k. case map_of (extracted ex_read p) k of Some v \<Rightarrow> v | None \<Rightarrow> '''') ks)
                   (scan_files ex_walk)))
   \<and> handed (consolidate ex_walk ex_read (\<lambda>t. Inr ()) (init [''d''])) =
       Some [[''Source File'', ''C'', ''X'', ''b''],
             [''a.xlsx'', '''', ''1'', ''''],
             [''bad.xlsm'', '''', '''', ''''],
             [''sub/b.XLS'', ''3'', '''', ''4'']]"
proof -
  have t: "handed (consolidate ex_walk ex_read (\<lambda>t. Inr ()) (init [''d''])) =
       Some [[''Source File'', ''C'', ''X'', ''b''],
             [''a.xlsx'', '''', ''1'', ''''],
             [''bad.xlsm'', '''', '''', ''''],
             [''sub/b.XLS'', ''3'', '''', ''4'']]"
    by code_simp
  from consolidated_table_layout [OF ex_distinct ex_universe, of "\<lambda>t. Inr ()"] ex_distinct ex_universe t
  show ?thesis by blast
qed

text \<open>
  Claim C2. In a table given to the export, the key columns (the header after
  \<open>Source File\<close>) have no repetition, and they are exactly the keys of the mappings
  extracted from the scanned files: for a file that was read, the stripped non-empty keys
  of its rows; for a file that could not be read, none.
\<close>

theorem key_columns_are_union:
  assumes "handed (consolidate w rd sv (init dp)) = Some T"
  shows "hd (hd T) = ''Source File'' \<and> distinct (tl (hd T))
     \<and> set (tl (hd T)) = (\<Union>p\<in>set (scan_files w). fst ` set (extracted rd p))
     \<and> (\<forall>p df. rd p = Inr df \<longrightarrow>
           fst ` set (extracted rd p) = {row_key r |r. r \<in> set df \<and> row_key r \<noteq> ''''})
     \<and> (\<forall>p e. rd p = Inl e \<longrightarrow> fst ` set (extracted rd p) = {})"
proof -
  have f: "finite (universe rd (scan_files w))" by (rule finite_universe)
  from assms have T: "T = assembled (read_all rd (scan_files w) (init dp))"
    by (simp add: fresh_handed split: if_splits)
  then have h: "hd T = ''Source File'' # sorted_list_of_set (universe rd (scan_files w))"
    by (simp add: assembled_def fresh_all_keys)
  have 1: "hd (hd T) = ''Source File''" by (simp add: h)
  have 2: "distinct (tl (hd T))" by (simp add: h)
  have 3: "set (tl (hd T)) = (\<Union>p\<in>set (scan_files w). fst ` set (extracted rd p))"
    using f by (simp add: h) (simp add: universe_def)
  have 4: "\<forall>p df. rd p = Inr df \<longrightarrow>
           fst ` set (extracted rd p) = {row_key r |r. r \<in> set df \<and> row_key r \<noteq> ''''}"
    using extracted_keys by blast
  have 5: "\<forall>p e. rd p = Inl e \<longrightarrow> fst ` set (extracted rd p) = {}"
    by (simp add: extracted_fail)
  from 1 2 3 4 5 show ?thesis by blast
qed

theorem key_columns_are_union_witness:
  "handed (consolidate ex_walk ex_read (\<lambda>t. Inr ()) (init [''d''])) = Some ex_table
   \<and> hd (hd ex_table) = ''Source File'' \<and> distinct (tl (hd ex_table))
   \<and> set (tl (hd ex_table)) = (\<Union>p\<in>set (scan_files ex_walk). fst ` set (extracted ex_read p))
   \<and> fst ` set (extracted ex_read [''d'', ''a.xlsx'']) =
       {row_key r |r. r \<in> set [(Some '' X '', Some ''1''), (Some ''X'', Some ''2''),
                                 (None, Some ''z''), (Some ''b'', None)] \<and> row_key r \<noteq> ''''}
   \<and> fst ` set (extracted ex_read [''d'', ''bad.xlsm'']) = {}
   \<and> tl (hd ex_table) = [''C'', ''X'', ''b'']
   \<and> map fst (extracted ex_read [''d'', ''a.xlsx'']) = [''X'', ''b'']"
proof -
  have a: "ex_read [''d'', ''a.xlsx''] =
      Inr [(Some '' X '', Some ''1''), (Some ''X'', Some ''2''), (None, Some ''z''), (Some ''b'', None)]"
    by (simp add: ex_read_def)
  have b: "ex_read [''d'', ''bad.xlsm''] = Inl ReadError" by (simp add: ex_read_def)
  have 1: "tl (hd ex_table) = [''C'', ''X'', ''b'']" by code_simp
  have 2: "map fst (extracted ex_read [''d'', ''a.xlsx'']) = [''X'', ''b'']" by code_simp
  note t = key_columns_are_union [OF ex_handed]
  note t1 = t [THEN conjunct1]
  note t2 = t [THEN conjunct2, THEN conjunct1]
  note t3 = t [THEN conjunct2, THEN conjunct2, THEN conjunct1]
  note t4 = t [THEN conjunct2, THEN conjunct2, THEN conjunct2, THEN conjunct1, rule_format, OF a]
  note t5 = t [THEN conjunct2, THEN conjunct2, THEN conjunct2, THEN conjunct2, rule_format, OF b]
  show ?thesis
    by (rule conjI [OF ex_handed conjI [OF t1 conjI [OF t2 conjI [OF t3 conjI [OF t4
          conjI [OF t5 conjI [OF 1 2]]]]]]])
qed

text \<open>
  Claim C10. For files with pairwise different relative paths and a non-empty key
  universe, a cell of the table is the empty string exactly when the file's mapping has
  no value for the column's key or has the empty string for it. A row with a non-empty
  key and an absent value cell, the first with its key, stores the empty string for the
  key and puts the key among the columns.
\<close>

theorem blank_value_like_absent:
  assumes "distinct (map (rel dp) (scan_files w))" and "universe rd (scan_files w) \<noteq> {}"
  shows "\<exists>T ks. handed (consolidate w rd sv (init dp)) = Some T \<and> hd T = ''Source File'' # ks
     \<and> length T = Suc (length (scan_files w))
     \<and> (\<forall>n<length (scan_files w). \<forall>j<length ks.
           (T ! Suc n ! Suc j = '''' \<longleftrightarrow>
              map_of (extracted rd (scan_files w ! n)) (ks ! j) = None
              \<or> map_of (extracted rd (scan_files w ! n)) (ks ! j) = Some ''''))
     \<and> (\<forall>p\<in>set (scan_files w). \<forall>df i.
           rd p = Inr df \<and> i < length df \<and> row_key (df ! i) \<noteq> '''' \<and> snd (df ! i) = None
             \<and> (\<forall>j<i. row_key (df ! j) \<noteq> row_key (df ! i))
           \<longrightarrow> map_of (extracted rd p) (row_key (df ! i)) = Some '''' \<and> row_key (df ! i) \<in> set ks)"
proof -
  from fresh_table [OF assms, of sv] obtain ks where
    ks: "set ks = universe rd (scan_files w)" and
    c: "consolidate w rd sv (init dp) =
       \<lparr>success =
          (sv ((''Source File'' # ks)
             # map (\<lambda>p. rel dp p # map (cell_of (extracted rd p)) ks) (scan_files w)) = Inr ()),
        handed = Some ((''Source File'' # ks)
             # map (\<lambda>p. rel dp p # map (cell_of (extracted rd p)) ks) (scan_files w)),
        final = read_all rd (scan_files w) (init dp)\<rparr>"
    by blast
  let ?T = "(''Source File'' # ks)
             # map (\<lambda>p. rel dp p # map (cell_of (extracted rd p)) ks) (scan_files w)"
  have h: "handed (consolidate w rd sv (init dp)) = Some ?T" by (simp add: c)
  have hd: "hd ?T = ''Source File'' # ks" by simp
  have len: "length ?T = Suc (length (scan_files w))" by simp
  have cell: "\<forall>n<length (scan_files w). \<forall>j<length ks.
           (?T ! Suc n ! Suc j = '''' \<longleftrightarrow>
              map_of (extracted rd (scan_files w ! n)) (ks ! j) = None
              \<or> map_of (extracted rd (scan_files w ! n)) (ks ! j) = Some '''')"
    by (simp add: cell_of_def split: option.splits)
  have blank: "\<forall>p\<in>set (scan_files w). \<forall>df i.
           rd p = Inr df \<and> i < length df \<and> row_key (df ! i) \<noteq> '''' \<and> snd (df ! i) = None
             \<and> (\<forall>j<i. row_key (df ! j) \<noteq> row_key (df ! i))
           \<longrightarrow> map_of (extracted rd p) (row_key (df ! i)) = Some '''' \<and> row_key (df ! i) \<in> set ks"
  proof (intro ballI allI impI)
    fix p df i
    assume p: "p \<in> set (scan_files w)"
      and a: "rd p = Inr df \<and> i < length df \<and> row_key (df ! i) \<noteq> '''' \<and> snd (df ! i) = None
             \<and> (\<forall>j<i. row_key (df ! j) \<noteq> row_key (df ! i))"
    then have "map_of (pairs df) (row_key (df ! i)) = Some (row_value (df ! i))"
      by (intro pairs_first) simp_all
    moreover have "row_value (df ! i) = ''''" using a by (simp add: row_value_def)
    ultimately have m: "map_of (extracted rd p) (row_key (df ! i)) = Some ''''"
      using a by (simp add: extracted_map_of)
    then have "row_key (df ! i) \<in> fst ` set (extracted rd p)"
      by (metis map_of_eq_None_iff option.distinct(1))
    then have "row_key (df ! i) \<in> set ks" using p ks by (auto simp: universe_def)
    with m show "map_of (extracted rd p) (row_key (df ! i)) = Some '''' \<and> row_key (df ! i) \<in> set ks"
      by simp
  qed
  from h hd len cell blank show ?thesis by blast
qed

theorem blank_value_like_absent_witness:
  "distinct (map (rel [''d'']) (scan_files ex_walk))
   \<and> universe ex_read (scan_files ex_walk) \<noteq> {}
   \<and> (\<exists>T ks. handed (consolidate ex_walk ex_read (\<lambda>t. Inr ()) (init [''d''])) = Some T
     \<and> hd T = ''Source File'' # ks
     \<and> length T = Suc (length (scan_files ex_walk))
     \<and> (\<forall>n<length (scan_files ex_walk). \<forall>j<length ks.
           (T ! Suc n ! Suc j = '''' \<longleftrightarrow>
              map_of (extracted ex_read (scan_files ex_walk ! n)) (ks ! j) = None
              \<or> map_of (extracted ex_read (scan_files ex_walk ! n)) (ks ! j) = Some ''''))
     \<and> (\<forall>p\<in>set (scan_files ex_walk). \<forall>df i.
           ex_read p = Inr df \<and> i < length df \<and> row_key (df ! i) \<noteq> '''' \<and> snd (df ! i) = None
             \<and> (\<forall>j<i. row_key (df ! j) \<noteq> row_key (df ! i))
           \<longrightarrow> map_of (extracted ex_read p) (row_key (df ! i)) = Some ''''
               \<and> row_key (df ! i) \<in> set ks))
   \<and> handed (consolidate ex_walk ex_read (\<lambda>t. Inr ()) (init [''d''])) = Some ex_table
   \<and> map_of (extracted ex_read [''d'', ''a.xlsx'']) ''b'' = Some ''''
   \<and> map_of (extracted ex_read [''d'', ''a.xlsx'']) ''C'' = None
   \<and> ex_table ! 1 ! 3 = '''' \<and> ex_table ! 1 ! 1 = '''' \<and> ex_table ! 0 ! 3 = ''b''
   \<and> ex_table ! 0 ! 1 = ''C''"
proof -
  note t = blank_value_like_absent [OF ex_distinct ex_universe, of "\<lambda>t. Inr ()"]
  have 1: "map_of (extracted ex_read [''d'', ''a.xlsx'']) ''b'' = Some ''''" by code_simp
  have 2: "map_of (extracted ex_read [''d'', ''a.xlsx'']) ''C'' = None" by code_simp
  have 3: "ex_table ! 1 ! 3 = '''' \<and> ex_table ! 1 ! 1 = '''' \<and> ex_table ! 0 ! 3 = ''b''
   \<and> ex_table ! 0 ! 1 = ''C''" by code_simp
  show ?thesis
    by (rule conjI [OF ex_distinct conjI [OF ex_universe conjI [OF t conjI [OF ex_handed
          conjI [OF 1 conjI [OF 2 3]]]]]])
qed


subsection \<open>Repeated keys and failed files\<close>

text \<open>
  Claim C3. When a sheet is read, a non-empty key takes the value of the first row that
  has it, whatever rows with the same key follow, and the key list stored for the file
  holds the key exactly once. In the table, for files with pairwise different relative
  paths, the row of the file has that value in the column of the key.
\<close>

theorem first_occurrence_wins:
  assumes "rd p = Inr df" and "i < length df" and "row_key (df ! i) = k" and "k \<noteq> ''''"
    and "\<forall>j<i. row_key (df ! j) \<noteq> k"
  shows "map_of (fst (read_excel rd s p)) k = Some (row_value (df ! i))
     \<and> count_list (key_list (snd (read_excel rd s p)) (get_relative_path s p)) k = 1
     \<and> (p \<in> set (scan_files w) \<and> distinct (map (rel dp) (scan_files w)) \<longrightarrow>
          (\<exists>T ks j. handed (consolidate w rd sv (init dp)) = Some T \<and> hd T = ''Source File'' # ks
             \<and> j < length ks \<and> ks ! j = k
             \<and> (\<exists>n<length (scan_files w). scan_files w ! n = p
                   \<and> T ! Suc n ! 0 = rel dp p \<and> T ! Suc n ! Suc j = row_value (df ! i))))"
proof -
  have m: "map_of (extracted rd p) k = Some (row_value (df ! i))"
    using assms by (simp add: extracted_map_of pairs_first)
  then have 1: "map_of (fst (read_excel rd s p)) k = Some (row_value (df ! i))"
    by (simp add: read_excel_fst)
  have kin: "k \<in> set (map fst (extracted rd p))"
    using m by (metis map_of_eq_None_iff option.distinct(1) set_map)
  have 2: "count_list (key_list (snd (read_excel rd s p)) (get_relative_path s p)) k = 1"
    using kin extracted_distinct [of rd p] assms(1)
    by (simp add: key_list_read_excel distinct_count_list)
  have 3: "\<exists>T ks j. handed (consolidate w rd sv (init dp)) = Some T \<and> hd T = ''Source File'' # ks
             \<and> j < length ks \<and> ks ! j = k
             \<and> (\<exists>n<length (scan_files w). scan_files w ! n = p
                   \<and> T ! Suc n ! 0 = rel dp p \<and> T ! Suc n ! Suc j = row_value (df ! i))"
    if p: "p \<in> set (scan_files w)" and d: "distinct (map (rel dp) (scan_files w))"
  proof -
    have "k \<in> universe rd (scan_files w)" using kin p by (auto simp: universe_def)
    then have ne: "universe rd (scan_files w) \<noteq> {}" by auto
    from fresh_table [OF d ne, of sv] obtain ks where
      ks: "set ks = universe rd (scan_files w)" and
      c: "consolidate w rd sv (init dp) =
         \<lparr>success =
            (sv ((''Source File'' # ks)
               # map (\<lambda>p. rel dp p # map (cell_of (extracted rd p)) ks) (scan_files w)) = Inr ()),
          handed = Some ((''Source File'' # ks)
               # map (\<lambda>p. rel dp p # map (cell_of (extracted rd p)) ks) (scan_files w)),
          final = read_all rd (scan_files w) (init dp)\<rparr>"
      by blast
    let ?T = "(''Source File'' # ks)
               # map (\<lambda>p. rel dp p # map (cell_of (extracted rd p)) ks) (scan_files w)"
    from \<open>k \<in> universe rd (scan_files w)\<close> ks have "k \<in> set ks" by simp
    then obtain j where j: "j < length ks" "ks ! j = k" by (auto simp: in_set_conv_nth)
    from p obtain n where n: "n < length (scan_files w)" "scan_files w ! n = p"
      by (auto simp: in_set_conv_nth)
    have h: "handed (consolidate w rd sv (init dp)) = Some ?T" by (simp add: c)
    have r0: "?T ! Suc n ! 0 = rel dp p" using n by simp
    have "?T ! Suc n ! Suc j = cell_of (extracted rd p) k" using n j by simp
    then have r1: "?T ! Suc n ! Suc j = row_value (df ! i)" using m by (simp add: cell_of_def)
    have hd: "hd ?T = ''Source File'' # ks" by simp
    from h hd j n r0 r1 show ?thesis by blast
  qed
  from 1 2 3 show ?thesis by blast
qed

theorem first_occurrence_wins_witness:
  "dup_read [''d'', ''c.xlsx''] = Inr [(Some ''X'', Some ''1''), (Some ''X'', Some ''2'')]
   \<and> row_key ([(Some ''X'', Some ''1''), (Some ''X'', Some ''2'')] ! 0) = ''X''
   \<and> row_key ([(Some ''X'', Some ''1''), (Some ''X'', Some ''2'')] ! 1) = ''X''
   \<and> [''d'', ''c.xlsx''] \<in> set (scan_files dup_walk)
   \<and> distinct (map (rel [''d'']) (scan_files dup_walk))
   \<and> map_of (fst (read_excel dup_read (init [''d'']) [''d'', ''c.xlsx''])) ''X'' = Some ''1''
   \<and> count_list (key_list (snd (read_excel dup_read (init [''d'']) [''d'', ''c.xlsx'']))
        (get_relative_path (init [''d'']) [''d'', ''c.xlsx''])) ''X'' = 1
   \<and> handed (consolidate dup_walk dup_read (\<lambda>t. Inr ()) (init [''d''])) =
        Some [[''Source File'', ''X''], [''c.xlsx'', ''1'']]"
proof -
  have a: "dup_read [''d'', ''c.xlsx''] = Inr [(Some ''X'', Some ''1''), (Some ''X'', Some ''2'')]"
    by (simp add: dup_read_def)
  have b: "(0::nat) < length [(Some ''X'', Some ''1''), (Some ''X'', Some ''2'')]" by simp
  have c: "row_key ([(Some ''X'', Some ''1''), (Some ''X'', Some ''2'')] ! 0) = ''X''" by code_simp
  have c1: "row_key ([(Some ''X'', Some ''1''), (Some ''X'', Some ''2'')] ! 1) = ''X''" by code_simp
  have d: "''X'' \<noteq> ''''" by simp
  have e: "\<forall>j<(0::nat). row_key ([(Some ''X'', Some ''1''), (Some ''X'', Some ''2'')] ! j) \<noteq> ''X''"
    by simp
  have f: "[''d'', ''c.xlsx''] \<in> set (scan_files dup_walk)" by code_simp
  have g: "distinct (map (rel [''d'']) (scan_files dup_walk))" by code_simp
  have h: "handed (consolidate dup_walk dup_read (\<lambda>t. Inr ()) (init [''d''])) =
        Some [[''Source File'', ''X''], [''c.xlsx'', ''1'']]" by code_simp
  have v: "row_value ([(Some ''X'', Some ''1''), (Some ''X'', Some ''2'')] ! 0) = ''1''" by code_simp
  note t = first_occurrence_wins [where rd = dup_read and p = "[''d'', ''c.xlsx'']"
      and df = "[(Some ''X'', Some ''1''), (Some ''X'', Some ''2'')]" and i = 0 and k = "''X''"
      and s = "init [''d'']" and w = dup_walk and dp = "[''d'']" and sv = "\<lambda>t. Inr ()",
      OF a b c d e]
  from t have t1: "map_of (fst (read_excel dup_read (init [''d'']) [''d'', ''c.xlsx''])) ''X'' = Some ''1''"
    by (simp only: v)
  from t have t2: "count_list (key_list (snd (read_excel dup_read (init [''d'']) [''d'', ''c.xlsx'']))
        (get_relative_path (init [''d'']) [''d'', ''c.xlsx''])) ''X'' = 1"
    by (rule conjunct1 [OF conjunct2])
  show ?thesis
    by (rule conjI [OF a conjI [OF c conjI [OF c1 conjI [OF f conjI [OF g conjI [OF t1 conjI [OF t2 h]]]]]]])
qed

text \<open>
  Claim C4. Reading a file that cannot be opened or parsed returns the empty mapping and
  leaves the engine as it was, so no key list is stored for it. When such a file is among
  the scanned files (with pairwise different relative paths) and some other file has a
  key, the run goes on: the table is given to the export, the result is the export's,
  and the table has one row per file in turn, a file that failed having its relative path
  and an empty string in every key column, a file that was read having its values.
\<close>

theorem failed_file_keeps_row:
  assumes "rd p = Inl e" and "p \<in> set (scan_files w)"
    and "distinct (map (rel dp) (scan_files w))" and "universe rd (scan_files w) \<noteq> {}"
  shows "read_excel rd s p = ([], s)
     \<and> key_list (final (consolidate w rd sv (init dp))) (rel dp p) = []
     \<and> (\<exists>T ks. ks \<noteq> [] \<and> set ks = universe rd (scan_files w)
          \<and> T = (''Source File'' # ks)
                 # map (\<lambda>q. rel dp q
                          # (case rd q of Inl e \<Rightarrow> replicate (length ks) ''''
                             | Inr df \<Rightarrow> map (cell_of (extracted rd q)) ks))
                     (scan_files w)
          \<and> handed (consolidate w rd sv (init dp)) = Some T
          \<and> (success (consolidate w rd sv (init dp)) \<longleftrightarrow> sv T = Inr ())
          \<and> rel dp p # replicate (length ks) '''' \<in> set (tl T))"
proof -
  have 1: "read_excel rd s p = ([], s)" using assms(1) by (rule read_excel_fail)
  from fresh_table [OF assms(3) assms(4), of sv] obtain ks where
    ks: "set ks = universe rd (scan_files w)" and
    c: "consolidate w rd sv (init dp) =
       \<lparr>success =
          (sv ((''Source File'' # ks)
             # map (\<lambda>p. rel dp p # map (cell_of (extracted rd p)) ks) (scan_files w)) = Inr ()),
        handed = Some ((''Source File'' # ks)
             # map (\<lambda>p. rel dp p # map (cell_of (extracted rd p)) ks) (scan_files w)),
        final = read_all rd (scan_files w) (init dp)\<rparr>"
    by blast
  have "\<forall>q\<in>set (scan_files w). get_relative_path (init dp) q = rel dp p \<longrightarrow> (\<exists>e. rd q = Inl e)"
  proof (intro ballI impI)
    fix q assume q: "q \<in> set (scan_files w)" and "get_relative_path (init dp) q = rel dp p"
    then have "rel dp q = rel dp p" by (simp add: rel_def)
    with assms(2,3) q have "q = p" by (meson distinct_map inj_onD)
    then show "\<exists>e. rd q = Inl e" using assms(1) by blast
  qed
  moreover have "map_of (file_order (init dp)) (rel dp p) = None" by (simp add: init_def)
  ultimately have "map_of (file_order (read_all rd (scan_files w) (init dp))) (rel dp p) = None"
    by (rule read_all_key_list_absent [rotated])
  then have 2: "key_list (final (consolidate w rd sv (init dp))) (rel dp p) = []"
    by (simp add: c key_list_def)
  have row: "\<And>q. map (cell_of (extracted rd q)) ks =
      (case rd q of Inl e \<Rightarrow> replicate (length ks) '''' | Inr df \<Rightarrow> map (cell_of (extracted rd q)) ks)"
    by (simp add: extracted_fail cells_of_nothing split: sum.splits)
  let ?T = "(''Source File'' # ks)
                 # map (\<lambda>q. rel dp q
                          # (case rd q of Inl e \<Rightarrow> replicate (length ks) ''''
                             | Inr df \<Rightarrow> map (cell_of (extracted rd q)) ks))
                     (scan_files w)"
  have T: "(''Source File'' # ks)
             # map (\<lambda>p. rel dp p # map (cell_of (extracted rd p)) ks) (scan_files w) = ?T"
    using row by simp
  have ne: "ks \<noteq> []" using ks assms(4) by auto
  have h: "handed (consolidate w rd sv (init dp)) = Some ?T" using c T by simp
  have su: "success (consolidate w rd sv (init dp)) \<longleftrightarrow> sv ?T = Inr ()" using c T by simp
  have "rel dp p # (case rd p of Inl e \<Rightarrow> replicate (length ks) ''''
                             | Inr df \<Rightarrow> map (cell_of (extracted rd p)) ks) \<in> set (tl ?T)"
    using assms(2) by (simp only: list.sel set_map) (rule imageI)
  then have m: "rel dp p # replicate (length ks) '''' \<in> set (tl ?T)" using assms(1) by simp
  from ne ks h su m have 3: "\<exists>T ks. ks \<noteq> [] \<and> set ks = universe rd (scan_files w)
          \<and> T = (''Source File'' # ks)
                 # map (\<lambda>q. rel dp q
                          # (case rd q of Inl e \<Rightarrow> replicate (length ks) ''''
                             | Inr df \<Rightarrow> map (cell_of (extracted rd q)) ks))
                     (scan_files w)
          \<and> handed (consolidate w rd sv (init dp)) = Some T
          \<and> (success (consolidate w rd sv (init dp)) \<longleftrightarrow> sv T = Inr ())
          \<and> rel dp p # replicate (length ks) '''' \<in> set (tl T)"
    by blast
  from 1 2 3 show ?thesis by blast
qed

theorem failed_file_keeps_row_witness:
  "ex_read [''d'', ''bad.xlsm''] = Inl ReadError
   \<and> [''d'', ''bad.xlsm''] \<in> set (scan_files ex_walk)
   \<and> distinct (map (rel [''d'']) (scan_files ex_walk))
   \<and> universe ex_read (scan_files ex_walk) \<noteq> {}
   \<and> read_excel ex_read (init [''d'']) [''d'', ''bad.xlsm''] = ([], init [''d''])
   \<and> key_list (final (consolidate ex_walk ex_read (\<lambda>t. Inr ()) (init [''d''])))
        (rel [''d''] [''d'', ''bad.xlsm'']) = []
   \<and> handed (consolidate ex_walk ex_read (\<lambda>t. Inr ()) (init [''d''])) = Some ex_table
   \<and> ex_table ! 2 = [''bad.xlsm'', '''', '''', '''']
   \<and> success (consolidate ex_walk ex_read (\<lambda>t. Inr ()) (init [''d'']))"
proof -
  have a: "ex_read [''d'', ''bad.xlsm''] = Inl ReadError" by code_simp
  have b: "[''d'', ''bad.xlsm''] \<in> set (scan_files ex_walk)" by (simp add: ex_scan)
  note t = failed_file_keeps_row [where rd = ex_read and p = "[''d'', ''bad.xlsm'']"
      and e = ReadError and w = ex_walk and dp = "[''d'']" and s = "init [''d'']"
      and sv = "\<lambda>t. Inr ()", OF a b ex_distinct ex_universe]
  from t have 1: "read_excel ex_read (init [''d'']) [''d'', ''bad.xlsm''] = ([], init [''d''])"
    by (rule conjunct1)
  from t have 2: "key_list (final (consolidate ex_walk ex_read (\<lambda>t. Inr ()) (init [''d''])))
        (rel [''d''] [''d'', ''bad.xlsm'']) = []"
    by (rule conjunct1 [OF conjunct2])
  have 3: "ex_table ! 2 = [''bad.xlsm'', '''', '''', '''']" by code_simp
  have 4: "success (consolidate ex_walk ex_read (\<lambda>t. Inr ()) (init [''d'']))" by code_simp
  show ?thesis
    by (rule conjI [OF a conjI [OF b conjI [OF ex_distinct conjI [OF ex_universe
          conjI [OF 1 conjI [OF 2 conjI [OF ex_handed conjI [OF 3 4]]]]]]]])
qed


subsection \<open>The result of a run\<close>

text \<open>
  Claim C5. On any engine, \<^verbatim>\<open>consolidate\<close> gives no table to the export in exactly two
  cases: the scan finds no file, or after reading the files the key set is empty (the
  engine had no key and no file gave one). In both it returns false. Otherwise it gives
  the table to the export and returns true exactly when the export succeeds.
\<close>

theorem consolidate_failure_cases:
  "(handed (consolidate w rd sv s) = None \<longleftrightarrow>
      scan_files w = [] \<or> (all_keys s = {} \<and> universe rd (scan_files w) = {}))
   \<and> (handed (consolidate w rd sv s) = None \<longrightarrow> \<not> success (consolidate w rd sv s))
   \<and> (\<forall>T. handed (consolidate w rd sv s) = Some T \<longrightarrow>
         (success (consolidate w rd sv s) \<longleftrightarrow> sv T = Inr ()))
   \<and> all_keys (init dp) = {}"
proof -
  have k: "all_keys (read_all rd (scan_files w) s) = all_keys s \<union> universe rd (scan_files w)"
    by (simp add: read_all_all_keys universe_def)
  show ?thesis by (simp add: consolidate_eq k init_def)
qed

theorem consolidate_failure_cases_witness:
  "handed (consolidate [([''d''], [''notes.txt''])] ex_read (\<lambda>t. Inr ()) (init [''d''])) = None
   \<and> \<not> success (consolidate [([''d''], [''notes.txt''])] ex_read (\<lambda>t. Inr ()) (init [''d'']))
   \<and> handed (consolidate [([''d''], [''bad.xlsm''])] ex_read (\<lambda>t. Inr ()) (init [''d''])) = None
   \<and> \<not> success (consolidate [([''d''], [''bad.xlsm''])] ex_read (\<lambda>t. Inr ()) (init [''d'']))
   \<and> handed (consolidate ex_walk ex_read (\<lambda>t. Inl SaveError) (init [''d''])) = Some ex_table
   \<and> \<not> success (consolidate ex_walk ex_read (\<lambda>t. Inl SaveError) (init [''d'']))
   \<and> handed (consolidate ex_walk ex_read (\<lambda>t. Inr ()) (init [''d''])) = Some ex_table
   \<and> success (consolidate ex_walk ex_read (\<lambda>t. Inr ()) (init [''d'']))"
proof -
  have k: "all_keys (init [''d'']) = {}" by (simp add: init_def)
  have 1: "scan_files [([''d''], [''notes.txt''])] = []" by code_simp
  have 3: "universe ex_read (scan_files [([''d''], [''bad.xlsm''])]) = {}" by code_simp
  have 5: "handed (consolidate ex_walk ex_read (\<lambda>t. Inl SaveError) (init [''d''])) = Some ex_table"
    by code_simp
  have a: "handed (consolidate [([''d''], [''notes.txt''])] ex_read (\<lambda>t. Inr ()) (init [''d''])) = None
     \<and> \<not> success (consolidate [([''d''], [''notes.txt''])] ex_read (\<lambda>t. Inr ()) (init [''d'']))"
    using consolidate_failure_cases [of "[([''d''], [''notes.txt''])]" ex_read "\<lambda>t. Inr ()" "init [''d'']"] 1
    by blast
  have b: "handed (consolidate [([''d''], [''bad.xlsm''])] ex_read (\<lambda>t. Inr ()) (init [''d''])) = None
     \<and> \<not> success (consolidate [([''d''], [''bad.xlsm''])] ex_read (\<lambda>t. Inr ()) (init [''d'']))"
    using consolidate_failure_cases [of "[([''d''], [''bad.xlsm''])]" ex_read "\<lambda>t. Inr ()" "init [''d'']"] 3 k
    by blast
  have c: "\<not> success (consolidate ex_walk ex_read (\<lambda>t. Inl SaveError) (init [''d'']))"
    using consolidate_failure_cases [of ex_walk ex_read "\<lambda>t. Inl SaveError" "init [''d'']"] 5
    by simp
  have d: "success (consolidate ex_walk ex_read (\<lambda>t. Inr ()) (init [''d'']))"
    using consolidate_failure_cases [of ex_walk ex_read "\<lambda>t. Inr ()" "init [''d'']"] ex_handed
    by simp
  from a b c d 5 ex_handed show ?thesis by blast
qed

text \<open>
  Claim C8. When two scans find the same files in different orders, with pairwise
  different relative paths, the two runs either both give no table to the export or give
  tables with the same header row and the same rows, each row as many times in one as in
  the other.
\<close>

theorem order_independent:
  assumes "mset (scan_files w1) = mset (scan_files w2)"
    and "distinct (map (rel dp) (scan_files w1))"
  shows "(handed (consolidate w1 rd sv (init dp)) = None
          \<and> handed (consolidate w2 rd sv (init dp)) = None)
     \<or> (\<exists>T1 T2. handed (consolidate w1 rd sv (init dp)) = Some T1
          \<and> handed (consolidate w2 rd sv (init dp)) = Some T2
          \<and> hd T1 = hd T2 \<and> mset (tl T1) = mset (tl T2) \<and> set (tl T1) = set (tl T2))"
proof -
  have s: "set (scan_files w1) = set (scan_files w2)" using assms(1) by (rule mset_eq_setD)
  have u: "universe rd (scan_files w1) = universe rd (scan_files w2)"
    using s by (rule universe_cong)
  have "mset (map (rel dp) (scan_files w1)) = mset (map (rel dp) (scan_files w2))"
    using assms(1) by (rule mset_map_cong)
  then have d2: "distinct (map (rel dp) (scan_files w2))"
    using assms(2) by (rule distinct_perm)
  have "set (scan_files w1) = {} \<longleftrightarrow> set (scan_files w2) = {}" by (simp only: s)
  then have e: "scan_files w1 = [] \<longleftrightarrow> scan_files w2 = []" by (simp only: set_empty)
  show ?thesis
  proof (cases "scan_files w1 = [] \<or> universe rd (scan_files w1) = {}")
    case True
    then show ?thesis using e u by (simp add: fresh_handed)
  next
    case False
    let ?ks = "sorted_list_of_set (universe rd (scan_files w1))"
    let ?row = "\<lambda>p. rel dp p # map (cell_of (extracted rd p)) ?ks"
    have h1: "handed (consolidate w1 rd sv (init dp)) =
        Some ((''Source File'' # ?ks) # map ?row (scan_files w1))"
      using False by (simp add: fresh_handed fresh_assembled [OF assms(2)])
    have h2: "handed (consolidate w2 rd sv (init dp)) =
        Some ((''Source File'' # ?ks) # map ?row (scan_files w2))"
      using False e u by (simp add: fresh_handed fresh_assembled [OF d2])
    have m: "mset (map ?row (scan_files w1)) = mset (map ?row (scan_files w2))"
      using assms(1) by (rule mset_map_cong)
    then have t: "set (map ?row (scan_files w1)) = set (map ?row (scan_files w2))"
      by (rule mset_eq_setD)
    have "hd ((''Source File'' # ?ks) # map ?row (scan_files w1))
        = hd ((''Source File'' # ?ks) # map ?row (scan_files w2))
      \<and> mset (tl ((''Source File'' # ?ks) # map ?row (scan_files w1)))
        = mset (tl ((''Source File'' # ?ks) # map ?row (scan_files w2)))
      \<and> set (tl ((''Source File'' # ?ks) # map ?row (scan_files w1)))
        = set (tl ((''Source File'' # ?ks) # map ?row (scan_files w2)))"
      using m t by (simp only: list.sel simp_thms)
    with h1 h2 show ?thesis by blast
  qed
qed

theorem order_independent_witness:
  "mset (scan_files ex_walk) = mset (scan_files ex_walk_rev)
   \<and> distinct (map (rel [''d'']) (scan_files ex_walk))
   \<and> scan_files ex_walk \<noteq> scan_files ex_walk_rev
   \<and> handed (consolidate ex_walk ex_read (\<lambda>t. Inr ()) (init [''d''])) = Some ex_table
   \<and> handed (consolidate ex_walk_rev ex_read (\<lambda>t. Inr ()) (init [''d''])) =
       Some [ex_table ! 0, ex_table ! 3, ex_table ! 2, ex_table ! 1]
   \<and> ((handed (consolidate ex_walk ex_read (\<lambda>t. Inr ()) (init [''d''])) = None
          \<and> handed (consolidate ex_walk_rev ex_read (\<lambda>t. Inr ()) (init [''d''])) = None)
     \<or> (\<exists>T1 T2. handed (consolidate ex_walk ex_read (\<lambda>t. Inr ()) (init [''d''])) = Some T1
          \<and> handed (consolidate ex_walk_rev ex_read (\<lambda>t. Inr ()) (init [''d''])) = Some T2
          \<and> hd T1 = hd T2 \<and> mset (tl T1) = mset (tl T2) \<and> set (tl T1) = set (tl T2)))"
proof -
  have a: "mset (scan_files ex_walk) = mset (scan_files ex_walk_rev)"
    by (simp add: ex_scan ex_scan_rev add_mset_commute)
  have n: "scan_files ex_walk \<noteq> scan_files ex_walk_rev"
    by (simp add: ex_scan ex_scan_rev)
  have r: "handed (consolidate ex_walk_rev ex_read (\<lambda>t. Inr ()) (init [''d''])) =
       Some [ex_table ! 0, ex_table ! 3, ex_table ! 2, ex_table ! 1]"
    by code_simp
  note t = order_independent [OF a ex_distinct, of ex_read "\<lambda>t. Inr ()"]
  show ?thesis
    by (rule conjI [OF a conjI [OF ex_distinct conjI [OF n conjI [OF ex_handed conjI [OF r t]]]]])
qed

text \<open>
  Claim C9. Two runs over the same directory contents (the same walk and the same sheets),
  each on an engine fresh from the constructor, give the export the same table, whatever
  the export does with it in either run. With pairwise different relative paths the same
  holds when the second run is made on the engine the first run left behind.
\<close>

theorem rerun_same_table:
  "handed (consolidate w rd sv2 (init dp)) = handed (consolidate w rd sv1 (init dp))
   \<and> (distinct (map (rel dp) (scan_files w)) \<longrightarrow>
        handed (consolidate w rd sv2 (final (consolidate w rd sv1 (init dp))))
          = handed (consolidate w rd sv1 (init dp)))"
proof -
  have 1: "handed (consolidate w rd sv2 (init dp)) = handed (consolidate w rd sv1 (init dp))"
    by (simp add: fresh_handed)
  have 2: "handed (consolidate w rd sv2 (final (consolidate w rd sv1 (init dp))))
          = handed (consolidate w rd sv1 (init dp))"
    if d: "distinct (map (rel dp) (scan_files w))"
  proof (cases "scan_files w = []")
    case True
    then show ?thesis by (simp add: consolidate_eq)
  next
    case False
    let ?s = "read_all rd (scan_files w) (init dp)"
    have f: "final (consolidate w rd sv1 (init dp)) = ?s" using False by (simp add: consolidate_eq)
    note r = rerun_state [OF d, of rd]
    have a: "assembled (read_all rd (scan_files w) ?s) = assembled ?s"
      using r by (simp add: assembled_def)
    show ?thesis using False r a unfolding f by (simp add: consolidate_eq)
  qed
  from 1 2 show ?thesis by blast
qed

theorem rerun_same_table_witness:
  "distinct (map (rel [''d'']) (scan_files ex_walk))
   \<and> handed (consolidate ex_walk ex_read (\<lambda>t. Inl SaveError) (init [''d''])) = Some ex_table
   \<and> handed (consolidate ex_walk ex_read (\<lambda>t. Inl SaveError)
        (final (consolidate ex_walk ex_read (\<lambda>t. Inr ()) (init [''d''])))) = Some ex_table"
proof -
  note t = rerun_same_table [of ex_walk ex_read "\<lambda>t. Inl SaveError" "[''d'']" "\<lambda>t. Inr ()"]
  from t ex_handed have 1: "handed (consolidate ex_walk ex_read (\<lambda>t. Inl SaveError) (init [''d''])) = Some ex_table"
    by simp
  from t ex_distinct ex_handed have 2: "handed (consolidate ex_walk ex_read (\<lambda>t. Inl SaveError)
        (final (consolidate ex_walk ex_read (\<lambda>t. Inr ()) (init [''d''])))) = Some ex_table"
    by simp
  show ?thesis by (rule conjI [OF ex_distinct conjI [OF 1 2]])
qed

end
